theory Spec2Isabelle
  imports Main
begin

section \<open>KiSAX: a shallow embedding of the scanner in kisax.h\<close>

text \<open>
  The class \<open>KiSAX::Parser\<close> is a table-driven scanner. Its members become the fields of
  a record, each private action routine (\<open>do_...\<close>) a function on that record, an
  exception a value \<open>Inl (code, parser)\<close> that keeps the object as the throw leaves it,
  and the calls of the virtual handlers an event appended to a log.
\<close>

subsection \<open>Error codes, symbols and the classifier\<close>

datatype ErrorCodes =
    KISAX_ERROR_CLOSE_STYLE_TAG
  | KISAX_ERROR_CLOSING_TAG_WITH_NO_BODY
  | KISAX_ERROR_CLOSING_TAG_WITH_ATTRIBUTES
  | KISAX_ERROR_BAD_STREAM
  | KISAX_ERROR_PARSING

datatype Symbol =
    TAG_BEGIN | QUESTION | DELIMITER | EQUAL | QUOTE | SLASH | EXCLAMATION
  | MINUS | UNDERLINE | DIGIT | ALPHA | COLON | TAG_END | ANOTHER

text \<open>The numeric value of each enumerator, and \<open>MAXTOKEN\<close>, the enumerator after the last.\<close>

fun symbol_index :: "Symbol \<Rightarrow> nat" where
  "symbol_index TAG_BEGIN = 0"
| "symbol_index QUESTION = 1"
| "symbol_index DELIMITER = 2"
| "symbol_index EQUAL = 3"
| "symbol_index QUOTE = 4"
| "symbol_index SLASH = 5"
| "symbol_index EXCLAMATION = 6"
| "symbol_index MINUS = 7"
| "symbol_index UNDERLINE = 8"
| "symbol_index DIGIT = 9"
| "symbol_index ALPHA = 10"
| "symbol_index COLON = 11"
| "symbol_index TAG_END = 12"
| "symbol_index ANOTHER = 13"

definition MAXTOKEN :: nat where
  "MAXTOKEN = 14"

text \<open>
  \<open>std::isalpha\<close> and \<open>std::isdigit\<close> in the default "C" locale: the 52 ASCII letters and
  the ten ASCII digits. A byte above 127 is no letter and no digit there (where \<open>char\<close> is
  signed the call is not even defined for it); the model sends it to \<open>ANOTHER\<close>.
\<close>

definition isalpha :: "char \<Rightarrow> bool" where
  "isalpha c = (let n = (of_char c :: nat) in (65 \<le> n \<and> n \<le> 90) \<or> (97 \<le> n \<and> n \<le> 122))"

definition isdigit :: "char \<Rightarrow> bool" where
  "isdigit c = (let n = (of_char c :: nat) in 48 \<le> n \<and> n \<le> 57)"

definition getSymbolType :: "char \<Rightarrow> Symbol" where
  "getSymbolType c =
     (if isalpha c then ALPHA
      else if isdigit c then DIGIT
      else if c = CHR '' '' \<or> c = CHR 0x0A \<or> c = CHR 0x09 then DELIMITER
      else if c = CHR ''<'' then TAG_BEGIN
      else if c = CHR ''>'' then TAG_END
      else if c = CHR ''?'' then QUESTION
      else if c = CHR ''='' then EQUAL
      else if c = CHR 0x22 then QUOTE
      else if c = CHR ''/'' then SLASH
      else if c = CHR ''!'' then EXCLAMATION
      else if c = CHR ''-'' then MINUS
      else if c = CHR ''_'' then UNDERLINE
      else if c = CHR '':'' then COLON
      else ANOTHER)"

subsection \<open>The transition table\<close>

text \<open>The array \<open>_states\<close> of \<open>init()\<close>, row by row: 26 states of 14 symbols each.\<close>

definition m_states :: "int list" where
  "m_states =
   [ 1,-1, 0,-1,-1,-1,-1,-1,-1,-1,-1,-1,-1,-1,
    -1,17,-1,-1,-1,-1,-1,-1,-1,-1,-1,-1,-1,-1,
    -1,17,-1,-1,-1, 9,18,-1, 3, 3, 3,-1,-1,-1,
    -1, 4, 5,-1,-1, 7,-1, 3, 3, 3, 3, 3, 6,-1,
    -1,-1,-1,-1,-1,-1,-1,-1,-1,-1,-1,-1, 6,-1,
    -1, 4,-1,-1,-1, 7,-1,-1,-1,-1,11,-1, 6,-1,
    -1,-1,-1,-1,-1,-1,-1,-1,-1,-1,-1,-1,-1,-1,
    -1,-1,-1,-1,-1,-1,-1,-1,-1,-1,-1,-1, 6,-1,
     2,10, 8,10,10,10,10,10,10,10,10,10,10,10,
    -1,-1, 0,-1,-1,-1,-1,-1, 3, 3, 3,-1,-1,-1,
    16,10,10,10,10,10,10,10,10,10,10,10,10,10,
    -1,-1,-1,12,-1,-1,-1,11,11,11,11,-1,-1,-1,
    -1,-1,-1,-1,14,-1,-1,-1,-1,-1,-1,-1,-1,-1,
    13,13,13,13,15,13,13,13,13,13,13,13,13,13,
    13,13,13,13,15,13,13,13,13,13,13,13,13,13,
    -1, 4, 5,-1,-1, 7,-1,-1,-1,-1,-1,-1, 6,-1,
    -1,-1,-1,-1,-1,-1,-1,-1,-1,-1,-1,-1,-1,-1,
    -1,-1,-1,-1,-1,-1,-1,-1, 3, 3, 3,-1,-1,-1,
    -1,-1,-1,-1,-1,-1,-1,19,-1,-1,-1,-1,-1,-1,
    -1,-1,-1,-1,-1,-1,-1,20,-1,-1,-1,-1,-1,-1,
    21,21,21,21,21,21,21,22,21,21,21,21,21,21,
    21,21,21,21,21,21,21,22,21,21,21,21,21,21,
    24,24,24,24,24,24,24,23,24,24,24,24,24,24,
    -1,-1,-1,-1,-1,-1,-1,-1,-1,-1,-1,-1,25,-1,
    -1,-1,-1,-1,-1,-1,-1,-1,-1,-1,-1,-1,-1,-1,
    -1,-1,-1,-1,-1,-1,-1,-1,-1,-1,-1,-1,-1,-1]"

text \<open>
  \<open>m_states[m_state*MAXTOKEN+getSymbolType(c)]\<close>. The source reads the array with any
  \<open>m_state\<close>; the only value outside the rows that \<open>m_state\<close> ever holds is \<open>-1\<close>, left
  there by a parsing error, and a \<open>parse()\<close> resumed on it reads in front of the array
  (undefined in C++). The model answers \<open>-1\<close> there, so that such a call fails again
  with the parsing error; no result below resumes a parser in that state.
\<close>

definition next_state :: "int \<Rightarrow> Symbol \<Rightarrow> int" where
  "next_state st sy =
     (if 0 \<le> st \<and> st < 26 then m_states ! (nat st * MAXTOKEN + symbol_index sy) else - 1)"

subsection \<open>Events, the stream and the parser object\<close>

text \<open>One constructor for each virtual handler, carrying the arguments of the call.\<close>

datatype event =
    documentStart
  | documentEnd
  | elementStart string "string \<rightharpoonup> string"
  | elementEnd string
  | textHandle string
  | definitionHandle string "string \<rightharpoonup> string"
  | commentHandle string

text \<open>
  The handlers belong to the derived class. The one thing a handler can do to the scanner
  that the model follows is to call \<open>stop()\<close>: a sink tells, from the events delivered
  before and the event delivered now, whether the handler calls it.
\<close>

type_synonym sink = "event list \<Rightarrow> event \<Rightarrow> bool"

text \<open>
  The bound \<open>std::istream\<close>: the characters not yet extracted and the two state bits the
  parser looks at (\<open>failbit\<close> stands for \<open>failbit\<close> or \<open>badbit\<close>).
\<close>

record istream =
  unread :: string
  eofbit :: bool
  failbit :: bool

text \<open>
  \<open>is.get(c)\<close>: on a stream that is not good the extraction fails; at the end of the
  characters it sets \<open>eofbit\<close> and \<open>failbit\<close>; otherwise it hands out the next character.
\<close>

definition istream_get :: "istream \<Rightarrow> char option \<times> istream" where
  "istream_get s =
     (if eofbit s \<or> failbit s then (None, s\<lparr>failbit := True\<rparr>)
      else case unread s of
             [] \<Rightarrow> (None, s\<lparr>eofbit := True, failbit := True\<rparr>)
           | c # cs \<Rightarrow> (Some c, s\<lparr>unread := cs\<rparr>))"

text \<open>A freshly opened stream over the given characters.\<close>

definition stream_of :: "string \<Rightarrow> istream" where
  "stream_of cs = \<lparr>unread = cs, eofbit = False, failbit = False\<rparr>"

record Parser =
  m_state :: int
  m_current_char :: char
  m_is :: "istream option"
  m_text :: string
  m_tag :: string
  m_attributes :: "string \<rightharpoonup> string"
  m_attribute_first :: string
  m_attribute_second :: string
  m_comment :: string
  m_is_style :: bool
  m_is_closing_tag :: bool
  m_is_tag_no_body :: bool
  m_stop_flag :: bool
  events :: "event list"

text \<open>An exception leaves the object as it is at the throw; the result keeps both.\<close>

type_synonym outcome = "(ErrorCodes \<times> Parser) + Parser"

text \<open>
  A call of a virtual handler: the event joins the log, and \<open>m_stop_flag\<close> is set when
  the handler calls \<open>stop()\<close>.
\<close>

definition emit :: "sink \<Rightarrow> event \<Rightarrow> Parser \<Rightarrow> Parser" where
  "emit sink ev p =
     p\<lparr>m_stop_flag := (m_stop_flag p \<or> sink (events p) ev), events := events p @ [ev]\<rparr>"

subsection \<open>The action routines\<close>

definition do_nothing :: "sink \<Rightarrow> Parser \<Rightarrow> outcome" where
  "do_nothing sink p = Inr p"

definition do_style_on :: "sink \<Rightarrow> Parser \<Rightarrow> outcome" where
  "do_style_on sink p = Inr (p\<lparr>m_is_style := True\<rparr>)"

definition do_tag_pushback :: "sink \<Rightarrow> Parser \<Rightarrow> outcome" where
  "do_tag_pushback sink p = Inr (p\<lparr>m_tag := m_tag p @ [m_current_char p]\<rparr>)"

definition do_commentary_pushback :: "sink \<Rightarrow> Parser \<Rightarrow> outcome" where
  "do_commentary_pushback sink p = Inr (p\<lparr>m_comment := m_comment p @ [m_current_char p]\<rparr>)"

definition do_commentary_end :: "sink \<Rightarrow> Parser \<Rightarrow> outcome" where
  "do_commentary_end sink p =
     Inr ((emit sink (commentHandle (m_comment p)) p)\<lparr>m_comment := [], m_state := 8\<rparr>)"

definition do_comment_minus_mark :: "sink \<Rightarrow> Parser \<Rightarrow> outcome" where
  "do_comment_minus_mark sink p = Inr (p\<lparr>m_comment := m_comment p @ ''-'', m_state := 21\<rparr>)"

definition do_tag_clear :: "sink \<Rightarrow> Parser \<Rightarrow> outcome" where
  "do_tag_clear sink p = Inr (p\<lparr>m_tag := []\<rparr>)"

definition do_text_end :: "sink \<Rightarrow> Parser \<Rightarrow> outcome" where
  "do_text_end sink p =
     Inr ((emit sink (textHandle (m_text p)) p)\<lparr>m_text := [], m_state := 2\<rparr>)"

text \<open>\<open>std::map::insert\<close> leaves the map alone when the key is already there.\<close>

definition map_insert :: "(string \<rightharpoonup> string) \<Rightarrow> string \<Rightarrow> string \<Rightarrow> (string \<rightharpoonup> string)" where
  "map_insert m k v = (case m k of None \<Rightarrow> m(k \<mapsto> v) | Some old \<Rightarrow> m)"

definition do_attribute_store :: "sink \<Rightarrow> Parser \<Rightarrow> outcome" where
  "do_attribute_store sink p =
     Inr (p\<lparr>m_attributes := map_insert (m_attributes p) (m_attribute_first p) (m_attribute_second p),
            m_attribute_first := [],
            m_attribute_second := []\<rparr>)"

definition do_all_clear :: "Parser \<Rightarrow> Parser" where
  "do_all_clear p =
     p\<lparr>m_is_closing_tag := False,
       m_is_style := False,
       m_is_tag_no_body := False,
       m_text := [],
       m_tag := [],
       m_attributes := Map.empty,
       m_attribute_first := [],
       m_attribute_second := []\<rparr>"

definition do_attribute_first_pushback :: "sink \<Rightarrow> Parser \<Rightarrow> outcome" where
  "do_attribute_first_pushback sink p =
     Inr (p\<lparr>m_attribute_first := m_attribute_first p @ [m_current_char p]\<rparr>)"

definition do_attribute_second_pushback :: "sink \<Rightarrow> Parser \<Rightarrow> outcome" where
  "do_attribute_second_pushback sink p =
     Inr (p\<lparr>m_attribute_second := m_attribute_second p @ [m_current_char p]\<rparr>)"

definition do_is_style_on :: "sink \<Rightarrow> Parser \<Rightarrow> outcome" where
  "do_is_style_on sink p =
     (if \<not> m_is_style p then Inl (KISAX_ERROR_CLOSE_STYLE_TAG, p) else Inr p)"

definition do_tag_end :: "sink \<Rightarrow> Parser \<Rightarrow> outcome" where
  "do_tag_end sink p =
     (case (if m_is_style p
            then Inr (emit sink (definitionHandle (m_tag p) (m_attributes p))
                        (p\<lparr>m_is_style := False\<rparr>))
            else if m_is_closing_tag p
            then (if m_attributes p \<noteq> Map.empty
                  then Inl (KISAX_ERROR_CLOSING_TAG_WITH_ATTRIBUTES, p)
                  else Inr (emit sink (elementEnd (m_tag p)) p))
            else Inr (emit sink (elementStart (m_tag p) (m_attributes p)) p)) of
        Inl e \<Rightarrow> Inl e
      | Inr p1 \<Rightarrow>
          Inr ((do_all_clear
                  (if m_is_tag_no_body p1 then emit sink (elementEnd (m_tag p1)) p1 else p1))
               \<lparr>m_state := 8\<rparr>))"

definition do_tag_wobody_close :: "sink \<Rightarrow> Parser \<Rightarrow> outcome" where
  "do_tag_wobody_close sink p =
     (if m_is_style p then Inl (KISAX_ERROR_CLOSE_STYLE_TAG, p)
      else if m_is_closing_tag p then Inl (KISAX_ERROR_CLOSING_TAG_WITH_NO_BODY, p)
      else Inr (p\<lparr>m_is_tag_no_body := True\<rparr>))"

definition do_tag_is_closing :: "sink \<Rightarrow> Parser \<Rightarrow> outcome" where
  "do_tag_is_closing sink p =
     (if m_is_style p then Inl (KISAX_ERROR_CLOSE_STYLE_TAG, p)
      else Inr (p\<lparr>m_is_closing_tag := True\<rparr>))"

definition do_text_pushback :: "sink \<Rightarrow> Parser \<Rightarrow> outcome" where
  "do_text_pushback sink p = Inr (p\<lparr>m_text := m_text p @ [m_current_char p]\<rparr>)"

text \<open>The array \<open>_rules\<close> of \<open>init()\<close>: the action run on entry into each state.\<close>

definition m_rules :: "(sink \<Rightarrow> Parser \<Rightarrow> outcome) list" where
  "m_rules =
   [do_nothing,
    do_nothing,
    do_nothing,
    do_tag_pushback,
    do_is_style_on,
    do_nothing,
    do_tag_end,
    do_tag_wobody_close,
    do_nothing,
    do_tag_is_closing,
    do_text_pushback,
    do_attribute_first_pushback,
    do_nothing,
    do_attribute_second_pushback,
    do_nothing,
    do_attribute_store,
    do_text_end,
    do_style_on,
    do_nothing,
    do_nothing,
    do_nothing,
    do_commentary_pushback,
    do_nothing,
    do_nothing,
    do_comment_minus_mark,
    do_commentary_end]"

subsection \<open>The public operations\<close>

definition stop :: "Parser \<Rightarrow> Parser" where
  "stop p = p\<lparr>m_stop_flag := True\<rparr>"

definition reset :: "Parser \<Rightarrow> Parser" where
  "reset p =
     do_all_clear
       (p\<lparr>m_state := 0,
          m_is_style := False,
          m_is_closing_tag := False,
          m_is_tag_no_body := False,
          m_stop_flag := False\<rparr>)"

definition bind :: "istream \<Rightarrow> Parser \<Rightarrow> Parser" where
  "bind s p = p\<lparr>m_is := Some s\<rparr>"

text \<open>
  The two constructors: the member initialisers set \<open>m_state\<close> and \<open>m_is\<close>, the strings
  and the map start empty, and \<open>init()\<close> ends with \<open>reset()\<close>, which sets the four flags.
  \<open>m_current_char\<close> is not initialised; no routine reads it before \<open>get\<close> has written it.
\<close>

definition Parser_members :: "istream option \<Rightarrow> Parser" where
  "Parser_members src =
     \<lparr>m_state = 0, m_current_char = CHR 0x00, m_is = src,
      m_text = [], m_tag = [], m_attributes = Map.empty,
      m_attribute_first = [], m_attribute_second = [], m_comment = [],
      m_is_style = False, m_is_closing_tag = False, m_is_tag_no_body = False,
      m_stop_flag = False, events = []\<rparr>"

definition Parser_new :: Parser where
  "Parser_new = reset (Parser_members None)"

definition Parser_on :: "istream \<Rightarrow> Parser" where
  "Parser_on s = reset (Parser_members (Some s))"

text \<open>
  The body of the loop of \<open>parse()\<close>, after \<open>get\<close> has stored the character: the table
  gives the new state, a negative state is the parsing error, otherwise the rule of the
  new state runs.
\<close>

definition step :: "sink \<Rightarrow> Parser \<Rightarrow> outcome" where
  "step sink p =
     (let p1 = p\<lparr>m_state := next_state (m_state p) (getSymbolType (m_current_char p))\<rparr>
      in if m_state p1 < 0 then Inl (KISAX_ERROR_PARSING, p1)
         else (m_rules ! nat (m_state p1)) sink p1)"

text \<open>
  \<open>m_is->get(m_current_char)\<close> on the bound stream: the stream as the call leaves it,
  and the character when one was extracted.
\<close>

definition get_char :: "Parser \<Rightarrow> Parser \<times> bool" where
  "get_char p =
     (case m_is p of
        None \<Rightarrow> (p, False)
      | Some s \<Rightarrow>
          (case istream_get s of
             (None, s') \<Rightarrow> (p\<lparr>m_is := Some s'\<rparr>, False)
           | (Some c, s') \<Rightarrow> (p\<lparr>m_current_char := c, m_is := Some s'\<rparr>, True)))"

text \<open>What is left for \<open>get\<close> to hand out: the measure of the loop.\<close>

definition pending :: "Parser \<Rightarrow> nat" where
  "pending p =
     (case m_is p of
        None \<Rightarrow> 0
      | Some s \<Rightarrow> if eofbit s \<or> failbit s then 0 else Suc (length (unread s)))"

lemma next_state_less: "next_state st sy < 26"
proof -
  have all: "\<forall>x \<in> set m_states. x < 26"
    by (simp add: m_states_def)
  have len: "length m_states = 364"
    by (simp add: m_states_def)
  show ?thesis
  proof (cases "0 \<le> st \<and> st < 26")
    case True
    then have "nat st \<le> 25" by linarith
    then have "nat st * 14 \<le> 25 * 14" by (rule mult_le_mono1)
    moreover have "symbol_index sy < 14" by (cases sy) simp_all
    ultimately have "nat st * MAXTOKEN + symbol_index sy < length m_states"
      by (simp add: MAXTOKEN_def len)
    then have "m_states ! (nat st * MAXTOKEN + symbol_index sy) \<in> set m_states"
      by (rule nth_mem)
    with all True show ?thesis by (simp add: next_state_def)
  next
    case False
    then show ?thesis by (auto simp: next_state_def)
  qed
qed

lemmas rule_defs =
  do_nothing_def do_style_on_def do_tag_pushback_def do_commentary_pushback_def
  do_commentary_end_def do_comment_minus_mark_def do_text_end_def do_attribute_store_def
  do_attribute_first_pushback_def do_attribute_second_pushback_def do_is_style_on_def
  do_tag_end_def do_tag_wobody_close_def do_tag_is_closing_def do_text_pushback_def

lemma rules_keep_stream:
  "\<forall>r \<in> set m_rules. \<forall>sink p. m_is (case r sink p of Inl (e, q) \<Rightarrow> q | Inr q \<Rightarrow> q) = m_is p"
  by (simp add: m_rules_def rule_defs emit_def do_all_clear_def)

lemma step_keeps_stream:
  "m_is (case step sink p of Inl (e, q) \<Rightarrow> q | Inr q \<Rightarrow> q) = m_is p"
proof -
  let ?st = "next_state (m_state p) (getSymbolType (m_current_char p))"
  show ?thesis
  proof (cases "?st < 0")
    case True
    then show ?thesis by (simp add: step_def)
  next
    case False
    have "?st < 26" by (rule next_state_less)
    with False have "nat ?st < length m_rules" by (simp add: m_rules_def)
    then have "m_rules ! nat ?st \<in> set m_rules" by (rule nth_mem)
    with rules_keep_stream
    have "m_is (case (m_rules ! nat ?st) sink (p\<lparr>m_state := ?st\<rparr>) of
                  Inl (e, q) \<Rightarrow> q | Inr q \<Rightarrow> q) = m_is (p\<lparr>m_state := ?st\<rparr>)"
      by blast
    with False show ?thesis by (simp add: step_def)
  qed
qed

lemma step_pending: "step sink p = Inr q \<Longrightarrow> pending q = pending p"
  using step_keeps_stream [of sink p] by (simp add: pending_def)

lemma get_char_pending: "get_char p = (q, True) \<Longrightarrow> pending q < pending p"
  by (auto simp: get_char_def istream_get_def pending_def
           split: option.splits if_splits list.splits)

text \<open>
  The loop \<open>while (m_is->get(m_current_char) && !m_stop_flag) { ... }\<close>: the character is
  extracted first and the stop flag tested second.
\<close>

function parse_loop :: "sink \<Rightarrow> Parser \<Rightarrow> outcome" where
  "parse_loop sink p =
     (case get_char p of
        (p1, got) \<Rightarrow>
          if got \<and> \<not> m_stop_flag p1
          then (case step sink p1 of Inl e \<Rightarrow> Inl e | Inr p2 \<Rightarrow> parse_loop sink p2)
          else Inr p1)"
  by pat_completeness auto
termination
proof (relation "measure (\<lambda>(sink, p). pending p)")
  show "wf (measure (\<lambda>(sink, p). pending p))"
    by simp
next
  fix sink :: sink and p x :: Parser and y :: bool and b :: Parser
  assume g: "(x, y) = get_char p" and c: "y \<and> \<not> m_stop_flag x" and s: "step sink x = Inr b"
  from g c have "get_char p = (x, True)" by simp
  then have "pending x < pending p" by (rule get_char_pending)
  moreover from s have "pending b = pending x" by (rule step_pending)
  ultimately show "((sink, b), (sink, p)) \<in> measure (\<lambda>(sink, p). pending p)"
    by simp
qed

declare parse_loop.simps [simp del]

text \<open>\<open>m_is->eof()\<close>.\<close>

definition stream_eof :: "Parser \<Rightarrow> bool" where
  "stream_eof p = (case m_is p of None \<Rightarrow> False | Some s \<Rightarrow> eofbit s)"

definition parse :: "sink \<Rightarrow> Parser \<Rightarrow> outcome" where
  "parse sink p =
     (if m_is p = None then Inl (KISAX_ERROR_BAD_STREAM, p)
      else
        (let p1 = (if \<not> m_stop_flag p then emit sink documentStart p else p);
             p2 = p1\<lparr>m_stop_flag := False\<rparr>
         in case parse_loop sink p2 of
              Inl e \<Rightarrow> Inl e
            | Inr p3 \<Rightarrow>
                if \<not> m_stop_flag p3 \<and> \<not> stream_eof p3
                then Inl (KISAX_ERROR_BAD_STREAM, p3)
                else Inr (emit sink documentEnd p3)))"

subsection \<open>Reading an outcome\<close>

definition thrown :: "outcome \<Rightarrow> ErrorCodes option" where
  "thrown r = (case r of Inl (e, q) \<Rightarrow> Some e | Inr q \<Rightarrow> None)"

definition parser_of :: "outcome \<Rightarrow> Parser" where
  "parser_of r = (case r of Inl (e, q) \<Rightarrow> q | Inr q \<Rightarrow> q)"

definition delivered :: "outcome \<Rightarrow> event list" where
  "delivered r = events (parser_of r)"

text \<open>The sink of a handler that never calls \<open>stop()\<close>.\<close>

definition quiet :: sink where
  "quiet seen ev = False"

text \<open>
  The sink of the example in the header of kisax.h: \<open>elementEnd\<close> calls \<open>stop()\<close> when it
  is handed the given tag name.
\<close>

definition stop_at_tag :: "string \<Rightarrow> sink" where
  "stop_at_tag name seen ev = (case ev of elementEnd t \<Rightarrow> t = name | _ \<Rightarrow> False)"

text \<open>The sink of a handler set that calls \<open>stop()\<close> in \<open>documentStart\<close> only.\<close>

definition stop_at_start :: sink where
  "stop_at_start seen ev = (case ev of documentStart \<Rightarrow> True | _ \<Rightarrow> False)"

subsection \<open>The states an object can be in\<close>

text \<open>
  The closure of the constructors under everything that changes the object: the public
  operations \<open>bind\<close>, \<open>stop\<close> and \<open>reset\<close>, and the pieces \<open>parse()\<close> is made of (its
  prologue, the extraction of a character, the body of its loop, the call of
  \<open>documentEnd\<close>). The body of the loop is only run on a state that has a row in the
  table.
\<close>

inductive reachable :: "sink \<Rightarrow> Parser \<Rightarrow> bool" for sink :: sink where
  constructed: "reachable sink (reset (Parser_members src))"
| bound: "reachable sink p \<Longrightarrow> reachable sink (bind s p)"
| stopped: "reachable sink p \<Longrightarrow> reachable sink (stop p)"
| was_reset: "reachable sink p \<Longrightarrow> reachable sink (reset p)"
| started:
    "reachable sink p \<Longrightarrow>
     reachable sink ((if \<not> m_stop_flag p then emit sink documentStart p else p)\<lparr>m_stop_flag := False\<rparr>)"
| extracted: "reachable sink p \<Longrightarrow> reachable sink (fst (get_char p))"
| stepped: "reachable sink p \<Longrightarrow> 0 \<le> m_state p \<Longrightarrow> reachable sink (parser_of (step sink p))"
| finished: "reachable sink p \<Longrightarrow> reachable sink (emit sink documentEnd p)"

text \<open>
  Two facts that hold of every such state. The empty-element flag is only up between the
  \<open>/\<close> and the \<open>>\<close> of a tag that is neither a definition nor a closing tag; and the
  text buffer is never empty while text is being read, so that no text event is empty.
\<close>

definition tag_inv :: "Parser \<Rightarrow> bool" where
  "tag_inv p =
     (\<not> m_is_tag_no_body p \<or>
      ((m_state p = 7 \<or> m_state p < 0) \<and> \<not> m_is_style p \<and> \<not> m_is_closing_tag p))"

definition text_inv :: "Parser \<Rightarrow> bool" where
  "text_inv p = ((m_state p \<noteq> 10 \<or> m_text p \<noteq> []) \<and> textHandle [] \<notin> set (events p))"

text \<open>
  The bound stream is good and the characters given are the ones it will hand out, up
  to its end.
\<close>

definition ahead :: "Parser \<Rightarrow> string \<Rightarrow> bool" where
  "ahead p cs =
     (case m_is p of
        None \<Rightarrow> False
      | Some s \<Rightarrow> \<not> eofbit s \<and> \<not> failbit s \<and> unread s = cs)"

subsection \<open>Documents\<close>

text \<open>No two \<open>-\<close> next to each other.\<close>

fun no_double_minus :: "string \<Rightarrow> bool" where
  "no_double_minus (a # b # cs) =
     ((a \<noteq> CHR ''-'' \<or> b \<noteq> CHR ''-'') \<and> no_double_minus (b # cs))"
| "no_double_minus cs = True"

text \<open>
  The attribute names and values the table accepts: a name starts with a letter and goes
  on with letters, digits, \<open>_\<close> and \<open>-\<close> (rows 5 and 11); a value is anything without a
  double quote (rows 13 and 14). In the text of a tag each attribute follows one blank
  (rows 3 and 15).
\<close>

definition name_char :: "char \<Rightarrow> bool" where
  "name_char d =
     (getSymbolType d = MINUS \<or> getSymbolType d = UNDERLINE \<or>
      getSymbolType d = DIGIT \<or> getSymbolType d = ALPHA)"

definition attribute_name :: "string \<Rightarrow> bool" where
  "attribute_name k =
     (case k of
        [] \<Rightarrow> False
      | c # cs \<Rightarrow> getSymbolType c = ALPHA \<and> list_all name_char cs)"

definition attribute_value :: "string \<Rightarrow> bool" where
  "attribute_value v = list_all (\<lambda>d. d \<noteq> CHR 0x22) v"

fun attributes_text :: "(string \<times> string) list \<Rightarrow> string" where
  "attributes_text [] = []"
| "attributes_text ((k, v) # kvs) =
     '' '' @ k @ [CHR ''='', CHR 0x22] @ v @ [CHR 0x22] @ attributes_text kvs"

section \<open>The table and the loop, one step at a time\<close>

subsection \<open>The rows of the table\<close>

lemma next_state_0:
  "next_state 0 sy = (case sy of TAG_BEGIN \<Rightarrow> 1 | QUESTION \<Rightarrow> - 1 | DELIMITER \<Rightarrow> 0 | EQUAL \<Rightarrow> - 1 | QUOTE \<Rightarrow> - 1 | SLASH \<Rightarrow> - 1 | EXCLAMATION \<Rightarrow> - 1 | MINUS \<Rightarrow> - 1 | UNDERLINE \<Rightarrow> - 1 | DIGIT \<Rightarrow> - 1 | ALPHA \<Rightarrow> - 1 | COLON \<Rightarrow> - 1 | TAG_END \<Rightarrow> - 1 | ANOTHER \<Rightarrow> - 1)"
  by (cases sy) (simp_all add: next_state_def m_states_def MAXTOKEN_def)

lemma next_state_1:
  "next_state 1 sy = (case sy of TAG_BEGIN \<Rightarrow> - 1 | QUESTION \<Rightarrow> 17 | DELIMITER \<Rightarrow> - 1 | EQUAL \<Rightarrow> - 1 | QUOTE \<Rightarrow> - 1 | SLASH \<Rightarrow> - 1 | EXCLAMATION \<Rightarrow> - 1 | MINUS \<Rightarrow> - 1 | UNDERLINE \<Rightarrow> - 1 | DIGIT \<Rightarrow> - 1 | ALPHA \<Rightarrow> - 1 | COLON \<Rightarrow> - 1 | TAG_END \<Rightarrow> - 1 | ANOTHER \<Rightarrow> - 1)"
  by (cases sy) (simp_all add: next_state_def m_states_def MAXTOKEN_def)

lemma next_state_2:
  "next_state 2 sy = (case sy of TAG_BEGIN \<Rightarrow> - 1 | QUESTION \<Rightarrow> 17 | DELIMITER \<Rightarrow> - 1 | EQUAL \<Rightarrow> - 1 | QUOTE \<Rightarrow> - 1 | SLASH \<Rightarrow> 9 | EXCLAMATION \<Rightarrow> 18 | MINUS \<Rightarrow> - 1 | UNDERLINE \<Rightarrow> 3 | DIGIT \<Rightarrow> 3 | ALPHA \<Rightarrow> 3 | COLON \<Rightarrow> - 1 | TAG_END \<Rightarrow> - 1 | ANOTHER \<Rightarrow> - 1)"
  by (cases sy) (simp_all add: next_state_def m_states_def MAXTOKEN_def)

lemma next_state_3:
  "next_state 3 sy = (case sy of TAG_BEGIN \<Rightarrow> - 1 | QUESTION \<Rightarrow> 4 | DELIMITER \<Rightarrow> 5 | EQUAL \<Rightarrow> - 1 | QUOTE \<Rightarrow> - 1 | SLASH \<Rightarrow> 7 | EXCLAMATION \<Rightarrow> - 1 | MINUS \<Rightarrow> 3 | UNDERLINE \<Rightarrow> 3 | DIGIT \<Rightarrow> 3 | ALPHA \<Rightarrow> 3 | COLON \<Rightarrow> 3 | TAG_END \<Rightarrow> 6 | ANOTHER \<Rightarrow> - 1)"
  by (cases sy) (simp_all add: next_state_def m_states_def MAXTOKEN_def)

lemma next_state_4:
  "next_state 4 sy = (case sy of TAG_BEGIN \<Rightarrow> - 1 | QUESTION \<Rightarrow> - 1 | DELIMITER \<Rightarrow> - 1 | EQUAL \<Rightarrow> - 1 | QUOTE \<Rightarrow> - 1 | SLASH \<Rightarrow> - 1 | EXCLAMATION \<Rightarrow> - 1 | MINUS \<Rightarrow> - 1 | UNDERLINE \<Rightarrow> - 1 | DIGIT \<Rightarrow> - 1 | ALPHA \<Rightarrow> - 1 | COLON \<Rightarrow> - 1 | TAG_END \<Rightarrow> 6 | ANOTHER \<Rightarrow> - 1)"
  by (cases sy) (simp_all add: next_state_def m_states_def MAXTOKEN_def)

lemma next_state_5:
  "next_state 5 sy = (case sy of TAG_BEGIN \<Rightarrow> - 1 | QUESTION \<Rightarrow> 4 | DELIMITER \<Rightarrow> - 1 | EQUAL \<Rightarrow> - 1 | QUOTE \<Rightarrow> - 1 | SLASH \<Rightarrow> 7 | EXCLAMATION \<Rightarrow> - 1 | MINUS \<Rightarrow> - 1 | UNDERLINE \<Rightarrow> - 1 | DIGIT \<Rightarrow> - 1 | ALPHA \<Rightarrow> 11 | COLON \<Rightarrow> - 1 | TAG_END \<Rightarrow> 6 | ANOTHER \<Rightarrow> - 1)"
  by (cases sy) (simp_all add: next_state_def m_states_def MAXTOKEN_def)

lemma next_state_6:
  "next_state 6 sy = (case sy of TAG_BEGIN \<Rightarrow> - 1 | QUESTION \<Rightarrow> - 1 | DELIMITER \<Rightarrow> - 1 | EQUAL \<Rightarrow> - 1 | QUOTE \<Rightarrow> - 1 | SLASH \<Rightarrow> - 1 | EXCLAMATION \<Rightarrow> - 1 | MINUS \<Rightarrow> - 1 | UNDERLINE \<Rightarrow> - 1 | DIGIT \<Rightarrow> - 1 | ALPHA \<Rightarrow> - 1 | COLON \<Rightarrow> - 1 | TAG_END \<Rightarrow> - 1 | ANOTHER \<Rightarrow> - 1)"
  by (cases sy) (simp_all add: next_state_def m_states_def MAXTOKEN_def)

lemma next_state_7:
  "next_state 7 sy = (case sy of TAG_BEGIN \<Rightarrow> - 1 | QUESTION \<Rightarrow> - 1 | DELIMITER \<Rightarrow> - 1 | EQUAL \<Rightarrow> - 1 | QUOTE \<Rightarrow> - 1 | SLASH \<Rightarrow> - 1 | EXCLAMATION \<Rightarrow> - 1 | MINUS \<Rightarrow> - 1 | UNDERLINE \<Rightarrow> - 1 | DIGIT \<Rightarrow> - 1 | ALPHA \<Rightarrow> - 1 | COLON \<Rightarrow> - 1 | TAG_END \<Rightarrow> 6 | ANOTHER \<Rightarrow> - 1)"
  by (cases sy) (simp_all add: next_state_def m_states_def MAXTOKEN_def)

lemma next_state_8:
  "next_state 8 sy = (case sy of TAG_BEGIN \<Rightarrow> 2 | QUESTION \<Rightarrow> 10 | DELIMITER \<Rightarrow> 8 | EQUAL \<Rightarrow> 10 | QUOTE \<Rightarrow> 10 | SLASH \<Rightarrow> 10 | EXCLAMATION \<Rightarrow> 10 | MINUS \<Rightarrow> 10 | UNDERLINE \<Rightarrow> 10 | DIGIT \<Rightarrow> 10 | ALPHA \<Rightarrow> 10 | COLON \<Rightarrow> 10 | TAG_END \<Rightarrow> 10 | ANOTHER \<Rightarrow> 10)"
  by (cases sy) (simp_all add: next_state_def m_states_def MAXTOKEN_def)

lemma next_state_9:
  "next_state 9 sy = (case sy of TAG_BEGIN \<Rightarrow> - 1 | QUESTION \<Rightarrow> - 1 | DELIMITER \<Rightarrow> 0 | EQUAL \<Rightarrow> - 1 | QUOTE \<Rightarrow> - 1 | SLASH \<Rightarrow> - 1 | EXCLAMATION \<Rightarrow> - 1 | MINUS \<Rightarrow> - 1 | UNDERLINE \<Rightarrow> 3 | DIGIT \<Rightarrow> 3 | ALPHA \<Rightarrow> 3 | COLON \<Rightarrow> - 1 | TAG_END \<Rightarrow> - 1 | ANOTHER \<Rightarrow> - 1)"
  by (cases sy) (simp_all add: next_state_def m_states_def MAXTOKEN_def)

lemma next_state_10:
  "next_state 10 sy = (case sy of TAG_BEGIN \<Rightarrow> 16 | QUESTION \<Rightarrow> 10 | DELIMITER \<Rightarrow> 10 | EQUAL \<Rightarrow> 10 | QUOTE \<Rightarrow> 10 | SLASH \<Rightarrow> 10 | EXCLAMATION \<Rightarrow> 10 | MINUS \<Rightarrow> 10 | UNDERLINE \<Rightarrow> 10 | DIGIT \<Rightarrow> 10 | ALPHA \<Rightarrow> 10 | COLON \<Rightarrow> 10 | TAG_END \<Rightarrow> 10 | ANOTHER \<Rightarrow> 10)"
  by (cases sy) (simp_all add: next_state_def m_states_def MAXTOKEN_def)

lemma next_state_11:
  "next_state 11 sy = (case sy of TAG_BEGIN \<Rightarrow> - 1 | QUESTION \<Rightarrow> - 1 | DELIMITER \<Rightarrow> - 1 | EQUAL \<Rightarrow> 12 | QUOTE \<Rightarrow> - 1 | SLASH \<Rightarrow> - 1 | EXCLAMATION \<Rightarrow> - 1 | MINUS \<Rightarrow> 11 | UNDERLINE \<Rightarrow> 11 | DIGIT \<Rightarrow> 11 | ALPHA \<Rightarrow> 11 | COLON \<Rightarrow> - 1 | TAG_END \<Rightarrow> - 1 | ANOTHER \<Rightarrow> - 1)"
  by (cases sy) (simp_all add: next_state_def m_states_def MAXTOKEN_def)

lemma next_state_12:
  "next_state 12 sy = (case sy of TAG_BEGIN \<Rightarrow> - 1 | QUESTION \<Rightarrow> - 1 | DELIMITER \<Rightarrow> - 1 | EQUAL \<Rightarrow> - 1 | QUOTE \<Rightarrow> 14 | SLASH \<Rightarrow> - 1 | EXCLAMATION \<Rightarrow> - 1 | MINUS \<Rightarrow> - 1 | UNDERLINE \<Rightarrow> - 1 | DIGIT \<Rightarrow> - 1 | ALPHA \<Rightarrow> - 1 | COLON \<Rightarrow> - 1 | TAG_END \<Rightarrow> - 1 | ANOTHER \<Rightarrow> - 1)"
  by (cases sy) (simp_all add: next_state_def m_states_def MAXTOKEN_def)

lemma next_state_13:
  "next_state 13 sy = (case sy of TAG_BEGIN \<Rightarrow> 13 | QUESTION \<Rightarrow> 13 | DELIMITER \<Rightarrow> 13 | EQUAL \<Rightarrow> 13 | QUOTE \<Rightarrow> 15 | SLASH \<Rightarrow> 13 | EXCLAMATION \<Rightarrow> 13 | MINUS \<Rightarrow> 13 | UNDERLINE \<Rightarrow> 13 | DIGIT \<Rightarrow> 13 | ALPHA \<Rightarrow> 13 | COLON \<Rightarrow> 13 | TAG_END \<Rightarrow> 13 | ANOTHER \<Rightarrow> 13)"
  by (cases sy) (simp_all add: next_state_def m_states_def MAXTOKEN_def)

lemma next_state_14:
  "next_state 14 sy = (case sy of TAG_BEGIN \<Rightarrow> 13 | QUESTION \<Rightarrow> 13 | DELIMITER \<Rightarrow> 13 | EQUAL \<Rightarrow> 13 | QUOTE \<Rightarrow> 15 | SLASH \<Rightarrow> 13 | EXCLAMATION \<Rightarrow> 13 | MINUS \<Rightarrow> 13 | UNDERLINE \<Rightarrow> 13 | DIGIT \<Rightarrow> 13 | ALPHA \<Rightarrow> 13 | COLON \<Rightarrow> 13 | TAG_END \<Rightarrow> 13 | ANOTHER \<Rightarrow> 13)"
  by (cases sy) (simp_all add: next_state_def m_states_def MAXTOKEN_def)

lemma next_state_15:
  "next_state 15 sy = (case sy of TAG_BEGIN \<Rightarrow> - 1 | QUESTION \<Rightarrow> 4 | DELIMITER \<Rightarrow> 5 | EQUAL \<Rightarrow> - 1 | QUOTE \<Rightarrow> - 1 | SLASH \<Rightarrow> 7 | EXCLAMATION \<Rightarrow> - 1 | MINUS \<Rightarrow> - 1 | UNDERLINE \<Rightarrow> - 1 | DIGIT \<Rightarrow> - 1 | ALPHA \<Rightarrow> - 1 | COLON \<Rightarrow> - 1 | TAG_END \<Rightarrow> 6 | ANOTHER \<Rightarrow> - 1)"
  by (cases sy) (simp_all add: next_state_def m_states_def MAXTOKEN_def)

lemma next_state_16:
  "next_state 16 sy = (case sy of TAG_BEGIN \<Rightarrow> - 1 | QUESTION \<Rightarrow> - 1 | DELIMITER \<Rightarrow> - 1 | EQUAL \<Rightarrow> - 1 | QUOTE \<Rightarrow> - 1 | SLASH \<Rightarrow> - 1 | EXCLAMATION \<Rightarrow> - 1 | MINUS \<Rightarrow> - 1 | UNDERLINE \<Rightarrow> - 1 | DIGIT \<Rightarrow> - 1 | ALPHA \<Rightarrow> - 1 | COLON \<Rightarrow> - 1 | TAG_END \<Rightarrow> - 1 | ANOTHER \<Rightarrow> - 1)"
  by (cases sy) (simp_all add: next_state_def m_states_def MAXTOKEN_def)

lemma next_state_17:
  "next_state 17 sy = (case sy of TAG_BEGIN \<Rightarrow> - 1 | QUESTION \<Rightarrow> - 1 | DELIMITER \<Rightarrow> - 1 | EQUAL \<Rightarrow> - 1 | QUOTE \<Rightarrow> - 1 | SLASH \<Rightarrow> - 1 | EXCLAMATION \<Rightarrow> - 1 | MINUS \<Rightarrow> - 1 | UNDERLINE \<Rightarrow> 3 | DIGIT \<Rightarrow> 3 | ALPHA \<Rightarrow> 3 | COLON \<Rightarrow> - 1 | TAG_END \<Rightarrow> - 1 | ANOTHER \<Rightarrow> - 1)"
  by (cases sy) (simp_all add: next_state_def m_states_def MAXTOKEN_def)

lemma next_state_18:
  "next_state 18 sy = (case sy of TAG_BEGIN \<Rightarrow> - 1 | QUESTION \<Rightarrow> - 1 | DELIMITER \<Rightarrow> - 1 | EQUAL \<Rightarrow> - 1 | QUOTE \<Rightarrow> - 1 | SLASH \<Rightarrow> - 1 | EXCLAMATION \<Rightarrow> - 1 | MINUS \<Rightarrow> 19 | UNDERLINE \<Rightarrow> - 1 | DIGIT \<Rightarrow> - 1 | ALPHA \<Rightarrow> - 1 | COLON \<Rightarrow> - 1 | TAG_END \<Rightarrow> - 1 | ANOTHER \<Rightarrow> - 1)"
  by (cases sy) (simp_all add: next_state_def m_states_def MAXTOKEN_def)

lemma next_state_19:
  "next_state 19 sy = (case sy of TAG_BEGIN \<Rightarrow> - 1 | QUESTION \<Rightarrow> - 1 | DELIMITER \<Rightarrow> - 1 | EQUAL \<Rightarrow> - 1 | QUOTE \<Rightarrow> - 1 | SLASH \<Rightarrow> - 1 | EXCLAMATION \<Rightarrow> - 1 | MINUS \<Rightarrow> 20 | UNDERLINE \<Rightarrow> - 1 | DIGIT \<Rightarrow> - 1 | ALPHA \<Rightarrow> - 1 | COLON \<Rightarrow> - 1 | TAG_END \<Rightarrow> - 1 | ANOTHER \<Rightarrow> - 1)"
  by (cases sy) (simp_all add: next_state_def m_states_def MAXTOKEN_def)

lemma next_state_20:
  "next_state 20 sy = (case sy of TAG_BEGIN \<Rightarrow> 21 | QUESTION \<Rightarrow> 21 | DELIMITER \<Rightarrow> 21 | EQUAL \<Rightarrow> 21 | QUOTE \<Rightarrow> 21 | SLASH \<Rightarrow> 21 | EXCLAMATION \<Rightarrow> 21 | MINUS \<Rightarrow> 22 | UNDERLINE \<Rightarrow> 21 | DIGIT \<Rightarrow> 21 | ALPHA \<Rightarrow> 21 | COLON \<Rightarrow> 21 | TAG_END \<Rightarrow> 21 | ANOTHER \<Rightarrow> 21)"
  by (cases sy) (simp_all add: next_state_def m_states_def MAXTOKEN_def)

lemma next_state_21:
  "next_state 21 sy = (case sy of TAG_BEGIN \<Rightarrow> 21 | QUESTION \<Rightarrow> 21 | DELIMITER \<Rightarrow> 21 | EQUAL \<Rightarrow> 21 | QUOTE \<Rightarrow> 21 | SLASH \<Rightarrow> 21 | EXCLAMATION \<Rightarrow> 21 | MINUS \<Rightarrow> 22 | UNDERLINE \<Rightarrow> 21 | DIGIT \<Rightarrow> 21 | ALPHA \<Rightarrow> 21 | COLON \<Rightarrow> 21 | TAG_END \<Rightarrow> 21 | ANOTHER \<Rightarrow> 21)"
  by (cases sy) (simp_all add: next_state_def m_states_def MAXTOKEN_def)

lemma next_state_22:
  "next_state 22 sy = (case sy of TAG_BEGIN \<Rightarrow> 24 | QUESTION \<Rightarrow> 24 | DELIMITER \<Rightarrow> 24 | EQUAL \<Rightarrow> 24 | QUOTE \<Rightarrow> 24 | SLASH \<Rightarrow> 24 | EXCLAMATION \<Rightarrow> 24 | MINUS \<Rightarrow> 23 | UNDERLINE \<Rightarrow> 24 | DIGIT \<Rightarrow> 24 | ALPHA \<Rightarrow> 24 | COLON \<Rightarrow> 24 | TAG_END \<Rightarrow> 24 | ANOTHER \<Rightarrow> 24)"
  by (cases sy) (simp_all add: next_state_def m_states_def MAXTOKEN_def)

lemma next_state_23:
  "next_state 23 sy = (case sy of TAG_BEGIN \<Rightarrow> - 1 | QUESTION \<Rightarrow> - 1 | DELIMITER \<Rightarrow> - 1 | EQUAL \<Rightarrow> - 1 | QUOTE \<Rightarrow> - 1 | SLASH \<Rightarrow> - 1 | EXCLAMATION \<Rightarrow> - 1 | MINUS \<Rightarrow> - 1 | UNDERLINE \<Rightarrow> - 1 | DIGIT \<Rightarrow> - 1 | ALPHA \<Rightarrow> - 1 | COLON \<Rightarrow> - 1 | TAG_END \<Rightarrow> 25 | ANOTHER \<Rightarrow> - 1)"
  by (cases sy) (simp_all add: next_state_def m_states_def MAXTOKEN_def)

lemma next_state_24:
  "next_state 24 sy = (case sy of TAG_BEGIN \<Rightarrow> - 1 | QUESTION \<Rightarrow> - 1 | DELIMITER \<Rightarrow> - 1 | EQUAL \<Rightarrow> - 1 | QUOTE \<Rightarrow> - 1 | SLASH \<Rightarrow> - 1 | EXCLAMATION \<Rightarrow> - 1 | MINUS \<Rightarrow> - 1 | UNDERLINE \<Rightarrow> - 1 | DIGIT \<Rightarrow> - 1 | ALPHA \<Rightarrow> - 1 | COLON \<Rightarrow> - 1 | TAG_END \<Rightarrow> - 1 | ANOTHER \<Rightarrow> - 1)"
  by (cases sy) (simp_all add: next_state_def m_states_def MAXTOKEN_def)

lemma next_state_25:
  "next_state 25 sy = (case sy of TAG_BEGIN \<Rightarrow> - 1 | QUESTION \<Rightarrow> - 1 | DELIMITER \<Rightarrow> - 1 | EQUAL \<Rightarrow> - 1 | QUOTE \<Rightarrow> - 1 | SLASH \<Rightarrow> - 1 | EXCLAMATION \<Rightarrow> - 1 | MINUS \<Rightarrow> - 1 | UNDERLINE \<Rightarrow> - 1 | DIGIT \<Rightarrow> - 1 | ALPHA \<Rightarrow> - 1 | COLON \<Rightarrow> - 1 | TAG_END \<Rightarrow> - 1 | ANOTHER \<Rightarrow> - 1)"
  by (cases sy) (simp_all add: next_state_def m_states_def MAXTOKEN_def)

lemmas rows =
  next_state_0 next_state_1 next_state_2 next_state_3 next_state_4 next_state_5
  next_state_6 next_state_7 next_state_8 next_state_9 next_state_10 next_state_11
  next_state_12 next_state_13 next_state_14 next_state_15 next_state_16 next_state_17
  next_state_18 next_state_19 next_state_20 next_state_21 next_state_22 next_state_23
  next_state_24 next_state_25

lemma state_range:
  "0 \<le> (st::int) \<Longrightarrow> st < 26 \<Longrightarrow>
   st \<in> {0, 1, 2, 3, 4, 5, 6, 7, 8, 9, 10, 11, 12, 13, 14, 15, 16, 17, 18, 19, 20, 21, 22, 23, 24, 25}"
  by simp presburger

lemma next_state_outside: "\<not> (0 \<le> st \<and> st < 26) \<Longrightarrow> next_state st sy = - 1"
  by (auto simp: next_state_def)

text \<open>The rule of each state, written out.\<close>

lemma step_by_state:
  "step sink p =
     (let st = next_state (m_state p) (getSymbolType (m_current_char p)); p1 = p\<lparr>m_state := st\<rparr>
      in if st < 0 then Inl (KISAX_ERROR_PARSING, p1)
         else if st = 3 then do_tag_pushback sink p1
         else if st = 4 then do_is_style_on sink p1
         else if st = 6 then do_tag_end sink p1
         else if st = 7 then do_tag_wobody_close sink p1
         else if st = 9 then do_tag_is_closing sink p1
         else if st = 10 then do_text_pushback sink p1
         else if st = 11 then do_attribute_first_pushback sink p1
         else if st = 13 then do_attribute_second_pushback sink p1
         else if st = 15 then do_attribute_store sink p1
         else if st = 16 then do_text_end sink p1
         else if st = 17 then do_style_on sink p1
         else if st = 21 then do_commentary_pushback sink p1
         else if st = 24 then do_comment_minus_mark sink p1
         else if st = 25 then do_commentary_end sink p1
         else Inr p1)"
proof -
  let ?st = "next_state (m_state p) (getSymbolType (m_current_char p))"
  show ?thesis
  proof (cases "?st < 0")
    case True
    then show ?thesis by (simp add: step_def)
  next
    case False
    moreover have "?st < 26" by (rule next_state_less)
    ultimately have "?st \<in> {0, 1, 2, 3, 4, 5, 6, 7, 8, 9, 10, 11, 12, 13, 14, 15, 16, 17, 18, 19, 20, 21, 22, 23, 24, 25}"
      by (simp only: state_range)
    then show ?thesis
      by (auto simp: step_def m_rules_def do_nothing_def)
  qed
qed

subsection \<open>One turn of the loop\<close>

lemma parse_loop_read:
  assumes "m_is p = Some s" "\<not> eofbit s" "\<not> failbit s" "unread s = c # cs"
  shows "parse_loop sink p =
           (if m_stop_flag p then Inr (p\<lparr>m_current_char := c, m_is := Some (s\<lparr>unread := cs\<rparr>)\<rparr>)
            else case step sink (p\<lparr>m_current_char := c, m_is := Some (s\<lparr>unread := cs\<rparr>)\<rparr>) of
                   Inl e \<Rightarrow> Inl e
                 | Inr p2 \<Rightarrow> parse_loop sink p2)"
  using assms by (subst parse_loop.simps) (simp add: get_char_def istream_get_def)

lemma parse_loop_end:
  assumes "m_is p = Some s" "\<not> eofbit s" "\<not> failbit s" "unread s = []"
  shows "parse_loop sink p = Inr (p\<lparr>m_is := Some (s\<lparr>eofbit := True, failbit := True\<rparr>)\<rparr>)"
  using assms by (subst parse_loop.simps) (simp add: get_char_def istream_get_def)

text \<open>The facts that run the model on a document given in full.\<close>

lemmas run =
  parse_def parse_loop_read parse_loop_end step_def rows getSymbolType_def
  isalpha_def isdigit_def m_rules_def rule_defs emit_def do_all_clear_def stream_eof_def
  Parser_on_def Parser_new_def Parser_members_def reset_def bind_def stop_def stream_of_def
  map_insert_def thrown_def delivered_def parser_of_def quiet_def stop_at_tag_def
  stop_at_start_def Let_def

subsection \<open>What every reachable state satisfies\<close>

lemma into_16: "next_state st sy = 16 \<Longrightarrow> st = 10"
proof (cases "0 \<le> st \<and> st < 26")
  case True
  then have "st \<in> {0, 1, 2, 3, 4, 5, 6, 7, 8, 9, 10, 11, 12, 13, 14, 15, 16, 17, 18, 19, 20, 21, 22, 23, 24, 25}"
    by (simp only: state_range)
  moreover assume "next_state st sy = 16"
  ultimately show ?thesis
    by (auto simp: rows split: Symbol.splits)
next
  case False
  moreover assume "next_state st sy = 16"
  ultimately show ?thesis by (simp add: next_state_outside)
qed

lemma step_state_nonneg: "step sink p = Inr q \<Longrightarrow> 0 \<le> m_state q"
  by (auto simp: step_by_state Let_def rule_defs emit_def do_all_clear_def split: if_splits)

lemma tag_inv_step:
  assumes "tag_inv p" "0 \<le> m_state p"
  shows "tag_inv (parser_of (step sink p))"
proof (cases "m_is_tag_no_body p")
  case True
  with assms have st: "m_state p = 7" and fl: "\<not> m_is_style p" "\<not> m_is_closing_tag p"
    by (auto simp: tag_inv_def)
  show ?thesis
    using st fl True
    by (cases "getSymbolType (m_current_char p)")
       (simp_all add: step_by_state next_state_7 Let_def rule_defs emit_def do_all_clear_def
          parser_of_def tag_inv_def)
next
  case False
  then show ?thesis
    by (auto simp: step_by_state Let_def rule_defs emit_def do_all_clear_def
          parser_of_def tag_inv_def split: if_splits)
qed

lemma text_inv_step:
  assumes "text_inv p"
  shows "text_inv (parser_of (step sink p))"
proof -
  let ?st = "next_state (m_state p) (getSymbolType (m_current_char p))"
  show ?thesis
  proof (cases "?st = 16")
    case True
    then have "m_state p = 10" by (rule into_16)
    with assms have "m_text p \<noteq> []" by (simp add: text_inv_def)
    with True assms show ?thesis
      by (simp add: step_by_state Let_def rule_defs emit_def parser_of_def text_inv_def)
  next
    case False
    with assms show ?thesis
      by (auto simp: step_by_state Let_def rule_defs emit_def do_all_clear_def
            parser_of_def text_inv_def split: if_splits)
  qed
qed

lemma tag_inv_reachable: "reachable sink p \<Longrightarrow> tag_inv p"
proof (induction rule: reachable.induct)
  case (constructed src)
  show ?case by (simp add: tag_inv_def reset_def do_all_clear_def)
next
  case (bound p s)
  then show ?case by (simp add: tag_inv_def bind_def)
next
  case (stopped p)
  then show ?case by (simp add: tag_inv_def stop_def)
next
  case (was_reset p)
  show ?case by (simp add: tag_inv_def reset_def do_all_clear_def)
next
  case (started p)
  then show ?case by (simp add: tag_inv_def emit_def)
next
  case (extracted p)
  then show ?case
    by (auto simp: tag_inv_def get_char_def split: option.splits prod.splits)
next
  case (stepped p)
  then show ?case by (simp add: tag_inv_step)
next
  case (finished p)
  then show ?case by (simp add: tag_inv_def emit_def)
qed

lemma text_inv_reachable: "reachable sink p \<Longrightarrow> text_inv p"
proof (induction rule: reachable.induct)
  case (constructed src)
  show ?case by (simp add: text_inv_def reset_def do_all_clear_def Parser_members_def)
next
  case (bound p s)
  then show ?case by (simp add: text_inv_def bind_def)
next
  case (stopped p)
  then show ?case by (simp add: text_inv_def stop_def)
next
  case (was_reset p)
  then show ?case by (simp add: text_inv_def reset_def do_all_clear_def)
next
  case (started p)
  then show ?case by (simp add: text_inv_def emit_def)
next
  case (extracted p)
  then show ?case
    by (auto simp: text_inv_def get_char_def split: option.splits prod.splits)
next
  case (stepped p)
  then show ?case by (simp add: text_inv_step)
next
  case (finished p)
  then show ?case by (simp add: text_inv_def emit_def)
qed

lemma reachable_parse_loop:
  "reachable sink p \<Longrightarrow> 0 \<le> m_state p \<Longrightarrow> reachable sink (parser_of (parse_loop sink p))"
proof (induction sink p rule: parse_loop.induct)
  case (1 sink p)
  obtain p1 got where g: "get_char p = (p1, got)" by (cases "get_char p")
  have r1: "reachable sink p1"
    using reachable.extracted [OF "1.prems"(1)] g by simp
  have s1: "0 \<le> m_state p1"
    using "1.prems"(2) g by (auto simp: get_char_def split: option.splits prod.splits)
  show ?case
  proof (cases "got \<and> \<not> m_stop_flag p1")
    case False
    with g r1 show ?thesis
      by (subst parse_loop.simps) (auto simp: parser_of_def)
  next
    case True
    show ?thesis
    proof (cases "step sink p1")
      case (Inl e)
      with reachable.stepped [OF r1 s1] g True show ?thesis
        by (subst parse_loop.simps) (auto simp: parser_of_def)
    next
      case (Inr p2)
      have r2: "reachable sink p2"
        using reachable.stepped [OF r1 s1] Inr by (simp add: parser_of_def)
      have s2: "0 \<le> m_state p2" using Inr by (rule step_state_nonneg)
      have "reachable sink (parser_of (parse_loop sink p2))"
        using "1.IH" [OF g [symmetric] True Inr r2 s2] .
      with g True Inr show ?thesis
        by (subst parse_loop.simps) simp
    qed
  qed
qed

lemma reachable_parse:
  assumes "reachable sink p" "0 \<le> m_state p"
  shows "reachable sink (parser_of (parse sink p))"
proof (cases "m_is p = None")
  case True
  with assms show ?thesis by (simp add: parse_def parser_of_def)
next
  case False
  let ?p2 = "(if \<not> m_stop_flag p then emit sink documentStart p else p)\<lparr>m_stop_flag := False\<rparr>"
  have r2: "reachable sink ?p2" using assms(1) by (rule reachable.started)
  have "0 \<le> m_state ?p2" using assms(2) by (simp add: emit_def)
  with r2 have r3: "reachable sink (parser_of (parse_loop sink ?p2))"
    by (rule reachable_parse_loop)
  show ?thesis
  proof (cases "parse_loop sink ?p2")
    case (Inl e)
    with r3 False show ?thesis by (auto simp: parse_def parser_of_def Let_def)
  next
    case (Inr p3)
    with r3 have "reachable sink p3" by (simp add: parser_of_def)
    then have "reachable sink (emit sink documentEnd p3)" by (rule reachable.finished)
    with Inr \<open>reachable sink p3\<close> False show ?thesis
      by (auto simp: parse_def parser_of_def Let_def)
  qed
qed

subsection \<open>The events of a step and of the loop\<close>

lemma rule_appends:
  "\<forall>r \<in> set m_rules. \<forall>p. \<exists>evs. events (parser_of (r sink p)) = events p @ evs
         \<and> documentStart \<notin> set evs \<and> documentEnd \<notin> set evs"
  by (simp add: m_rules_def rule_defs emit_def do_all_clear_def parser_of_def)

lemma step_appends:
  "\<exists>evs. events (parser_of (step sink p)) = events p @ evs
         \<and> documentStart \<notin> set evs \<and> documentEnd \<notin> set evs"
proof -
  let ?st = "next_state (m_state p) (getSymbolType (m_current_char p))"
  show ?thesis
  proof (cases "?st < 0")
    case True
    then show ?thesis by (simp add: step_def parser_of_def)
  next
    case False
    have "?st < 26" by (rule next_state_less)
    with False have "nat ?st < length m_rules" by (simp add: m_rules_def)
    then have "m_rules ! nat ?st \<in> set m_rules" by (rule nth_mem)
    with rule_appends [of sink]
    have "\<exists>evs. events (parser_of ((m_rules ! nat ?st) sink (p\<lparr>m_state := ?st\<rparr>)))
             = events (p\<lparr>m_state := ?st\<rparr>) @ evs
           \<and> documentStart \<notin> set evs \<and> documentEnd \<notin> set evs"
      by blast
    with False show ?thesis by (simp add: step_def)
  qed
qed

lemma get_char_events: "events (fst (get_char p)) = events p"
  by (auto simp: get_char_def split: option.splits prod.splits)

lemma parse_loop_appends:
  "\<exists>evs. events (parser_of (parse_loop sink p)) = events p @ evs
         \<and> documentStart \<notin> set evs \<and> documentEnd \<notin> set evs"
proof (induction sink p rule: parse_loop.induct)
  case (1 sink p)
  obtain p1 got where g: "get_char p = (p1, got)" by (cases "get_char p")
  have e1: "events p1 = events p" using get_char_events [of p] g by simp
  show ?case
  proof (cases "got \<and> \<not> m_stop_flag p1")
    case False
    with g e1 show ?thesis
      by (subst parse_loop.simps) (auto simp: parser_of_def)
  next
    case True
    obtain evs where a: "events (parser_of (step sink p1)) = events p1 @ evs"
        "documentStart \<notin> set evs" "documentEnd \<notin> set evs"
      using step_appends [of sink p1] by blast
    show ?thesis
    proof (cases "step sink p1")
      case (Inl e)
      with a e1 g True show ?thesis
        by (subst parse_loop.simps) (auto simp: parser_of_def)
    next
      case (Inr p2)
      obtain evs2 where b: "events (parser_of (parse_loop sink p2)) = events p2 @ evs2"
          "documentStart \<notin> set evs2" "documentEnd \<notin> set evs2"
        using "1.IH" [OF g [symmetric] True Inr] by blast
      from a Inr have "events p2 = events p @ evs" by (simp add: parser_of_def e1)
      with b a have "events (parser_of (parse_loop sink p2)) = events p @ (evs @ evs2)
          \<and> documentStart \<notin> set (evs @ evs2) \<and> documentEnd \<notin> set (evs @ evs2)"
        by simp
      then have "\<exists>evs. events (parser_of (parse_loop sink p2)) = events p @ evs
          \<and> documentStart \<notin> set evs \<and> documentEnd \<notin> set evs"
        by blast
      with g True Inr show ?thesis
        by (subst parse_loop.simps) simp
    qed
  qed
qed

subsection \<open>Inside a comment\<close>

lemma minus_iff: "getSymbolType c = MINUS \<longleftrightarrow> c = CHR ''-''"
  by (auto simp: getSymbolType_def isalpha_def isdigit_def Let_def)

lemma tag_end_iff: "getSymbolType c = TAG_END \<longleftrightarrow> c = CHR ''>''"
  by (auto simp: getSymbolType_def isalpha_def isdigit_def Let_def)

lemma step_in_comment:
  assumes "next_state (m_state q) MINUS = 22"
    and "\<And>sy. sy \<noteq> MINUS \<Longrightarrow> next_state (m_state q) sy = 21"
  shows "step sink q =
     (if m_current_char q = CHR ''-'' then Inr (q\<lparr>m_state := 22\<rparr>)
      else Inr (q\<lparr>m_state := 21, m_comment := m_comment q @ [m_current_char q]\<rparr>))"
proof (cases "m_current_char q = CHR ''-''")
  case True
  then have "getSymbolType (m_current_char q) = MINUS" by (simp add: minus_iff)
  with assms(1) True show ?thesis
    by (simp add: step_by_state Let_def)
next
  case False
  then have "getSymbolType (m_current_char q) \<noteq> MINUS" by (simp add: minus_iff)
  then have "next_state (m_state q) (getSymbolType (m_current_char q)) = 21" by (rule assms(2))
  with False show ?thesis
    by (simp add: step_by_state Let_def do_commentary_pushback_def)
qed

lemma step_in_20_21:
  assumes "m_state q = 20 \<or> m_state q = 21"
  shows "step sink q =
     (if m_current_char q = CHR ''-'' then Inr (q\<lparr>m_state := 22\<rparr>)
      else Inr (q\<lparr>m_state := 21, m_comment := m_comment q @ [m_current_char q]\<rparr>))"
proof (rule step_in_comment)
  show "next_state (m_state q) MINUS = 22"
    using assms by (auto simp: next_state_20 next_state_21)
  show "next_state (m_state q) sy = 21" if "sy \<noteq> MINUS" for sy
    using assms that by (cases sy) (auto simp: next_state_20 next_state_21)
qed

lemma step_in_22:
  assumes "m_state q = 22"
  shows "step sink q =
     (if m_current_char q = CHR ''-'' then Inr (q\<lparr>m_state := 23\<rparr>)
      else Inr (q\<lparr>m_comment := m_comment q @ ''-'', m_state := 21\<rparr>))"
proof (cases "m_current_char q = CHR ''-''")
  case True
  then have "getSymbolType (m_current_char q) = MINUS" by (simp add: minus_iff)
  with assms True show ?thesis
    by (simp add: step_by_state next_state_22 Let_def)
next
  case False
  then have "getSymbolType (m_current_char q) \<noteq> MINUS" by (simp add: minus_iff)
  with assms False show ?thesis
    by (cases "getSymbolType (m_current_char q)")
       (simp_all add: step_by_state next_state_22 Let_def do_comment_minus_mark_def)
qed

lemma step_in_23:
  assumes "m_state q = 23"
  shows "step sink q =
     (if m_current_char q = CHR ''>'' then do_commentary_end sink (q\<lparr>m_state := 25\<rparr>)
      else Inl (KISAX_ERROR_PARSING, q\<lparr>m_state := - 1\<rparr>))"
proof (cases "m_current_char q = CHR ''>''")
  case True
  then have "getSymbolType (m_current_char q) = TAG_END" by (simp add: tag_end_iff)
  with assms True show ?thesis
    by (simp add: step_by_state next_state_23 Let_def)
next
  case False
  then have "getSymbolType (m_current_char q) \<noteq> TAG_END" by (simp add: tag_end_iff)
  with assms False show ?thesis
    by (cases "getSymbolType (m_current_char q)")
       (simp_all add: step_by_state next_state_23 Let_def)
qed


lemma comment_throws:
  assumes "c \<noteq> CHR ''>''"
  shows "no_double_minus pre \<Longrightarrow> m_is p = Some s \<Longrightarrow> \<not> eofbit s \<Longrightarrow> \<not> failbit s \<Longrightarrow>
     unread s = pre @ CHR ''-'' # CHR ''-'' # c # rest \<Longrightarrow> \<not> m_stop_flag p \<Longrightarrow>
     m_state p = 20 \<or> m_state p = 21 \<or> (m_state p = 22 \<and> (pre = [] \<or> hd pre \<noteq> CHR ''-'')) \<Longrightarrow>
     \<exists>q. parse_loop sink p = Inl (KISAX_ERROR_PARSING, q) \<and> events q = events p"
proof (induction pre arbitrary: p s)
  case Nil
  show ?case
  proof (cases "m_state p = 22")
    case True
    with Nil assms show ?thesis
      by (simp add: parse_loop_read step_in_22 step_in_23)
  next
    case False
    with Nil have "m_state p = 20 \<or> m_state p = 21" by simp
    with Nil assms show ?thesis
      by (simp add: parse_loop_read step_in_20_21 step_in_22 step_in_23)
  qed
next
  case (Cons x pre)
  let ?s1 = "s\<lparr>unread := pre @ CHR ''-'' # CHR ''-'' # c # rest\<rparr>"
  let ?p1 = "p\<lparr>m_current_char := x, m_is := Some ?s1\<rparr>"
  have loop: "parse_loop sink p =
     (case step sink ?p1 of Inl e \<Rightarrow> Inl e | Inr p2 \<Rightarrow> parse_loop sink p2)"
    using Cons.prems by (simp add: parse_loop_read)
  have nd: "no_double_minus pre"
    using Cons.prems(1) by (cases pre) simp_all
  have good: "\<not> eofbit ?s1" "\<not> failbit ?s1" "unread ?s1 = pre @ CHR ''-'' # CHR ''-'' # c # rest"
    using Cons.prems by simp_all
  show ?case
  proof (cases "x = CHR ''-''")
    case True
    with Cons.prems have st: "m_state p = 20 \<or> m_state p = 21" by auto
    from True Cons.prems(1) have hd: "pre = [] \<or> hd pre \<noteq> CHR ''-''"
      by (cases pre) auto
    let ?p2 = "?p1\<lparr>m_state := 22\<rparr>"
    from st True have s1: "step sink ?p1 = Inr ?p2"
      by (simp add: step_in_20_21)
    have "\<exists>q. parse_loop sink ?p2 = Inl (KISAX_ERROR_PARSING, q) \<and> events q = events ?p2"
    proof (rule Cons.IH [OF nd _ good])
      show "m_is ?p2 = Some ?s1" by simp
      show "\<not> m_stop_flag ?p2" using Cons.prems by simp
      show "m_state ?p2 = 20 \<or> m_state ?p2 = 21 \<or>
            (m_state ?p2 = 22 \<and> (pre = [] \<or> hd pre \<noteq> CHR ''-''))"
        using hd by simp
    qed
    with loop s1 show ?thesis by simp
  next
    case False
    show ?thesis
    proof (cases "m_state p = 22")
      case True
      let ?p2 = "?p1\<lparr>m_comment := m_comment p @ ''-'', m_state := 21\<rparr>"
      from True False have s1: "step sink ?p1 = Inr ?p2"
        by (simp add: step_in_22)
      have "\<exists>q. parse_loop sink ?p2 = Inl (KISAX_ERROR_PARSING, q) \<and> events q = events ?p2"
      proof (rule Cons.IH [OF nd _ good])
        show "m_is ?p2 = Some ?s1" by simp
        show "\<not> m_stop_flag ?p2" using Cons.prems by simp
        show "m_state ?p2 = 20 \<or> m_state ?p2 = 21 \<or>
              (m_state ?p2 = 22 \<and> (pre = [] \<or> hd pre \<noteq> CHR ''-''))"
          by simp
      qed
      with loop s1 show ?thesis by simp
    next
      case n22: False
      with Cons.prems have st: "m_state p = 20 \<or> m_state p = 21" by simp
      let ?p2 = "?p1\<lparr>m_state := 21, m_comment := m_comment p @ [x]\<rparr>"
      from st False have s1: "step sink ?p1 = Inr ?p2"
        by (simp add: step_in_20_21)
      have "\<exists>q. parse_loop sink ?p2 = Inl (KISAX_ERROR_PARSING, q) \<and> events q = events ?p2"
      proof (rule Cons.IH [OF nd _ good])
        show "m_is ?p2 = Some ?s1" by simp
        show "\<not> m_stop_flag ?p2" using Cons.prems by simp
        show "m_state ?p2 = 20 \<or> m_state ?p2 = 21 \<or>
              (m_state ?p2 = 22 \<and> (pre = [] \<or> hd pre \<noteq> CHR ''-''))"
          by simp
      qed
      with loop s1 show ?thesis by simp
    qed
  qed
qed

text \<open>The way into a comment, after a definition tag.\<close>

lemma prologue_comment:
  "parse_loop quiet
     ((emit quiet documentStart (Parser_on (stream_of (''<?x?><!--'' @ body))))\<lparr>m_stop_flag := False\<rparr>) =
   parse_loop quiet
     \<lparr>m_state = 20, m_current_char = CHR ''-'',
      m_is = Some \<lparr>unread = body, eofbit = False, failbit = False\<rparr>,
      m_text = [], m_tag = [], m_attributes = Map.empty,
      m_attribute_first = [], m_attribute_second = [], m_comment = [],
      m_is_style = False, m_is_closing_tag = False, m_is_tag_no_body = False,
      m_stop_flag = False, events = [documentStart, definitionHandle ''x'' Map.empty]\<rparr>"
  by (simp add: parse_loop_read step_def rows getSymbolType_def
        isalpha_def isdigit_def m_rules_def rule_defs emit_def do_all_clear_def
        Parser_on_def Parser_members_def reset_def stream_of_def quiet_def Let_def)

subsection \<open>Inside a tag: the attributes\<close>

lemma quote_iff: "getSymbolType c = QUOTE \<longleftrightarrow> c = CHR 0x22"
  by (auto simp: getSymbolType_def isalpha_def isdigit_def Let_def)

lemma loop_char:
  assumes "m_is p = Some s" "\<not> eofbit s" "\<not> failbit s" "unread s = x # xs" "\<not> m_stop_flag p"
    and "step sink (p\<lparr>m_current_char := x, m_is := Some (s\<lparr>unread := xs\<rparr>)\<rparr>) = Inr q"
  shows "parse_loop sink p = parse_loop sink q"
  using assms by (simp add: parse_loop_read)

lemma stream_same: "unread s = rest \<Longrightarrow> s\<lparr>unread := rest\<rparr> = s"
  by (cases s) simp

lemma scan_name:
  "list_all name_char cs \<Longrightarrow> m_is p = Some s \<Longrightarrow> \<not> eofbit s \<Longrightarrow> \<not> failbit s \<Longrightarrow>
   unread s = cs @ rest \<Longrightarrow> \<not> m_stop_flag p \<Longrightarrow> m_state p = 11 \<Longrightarrow>
   parse_loop sink p =
   parse_loop sink
     (p\<lparr>m_current_char := last (m_current_char p # cs),
        m_is := Some (s\<lparr>unread := rest\<rparr>),
        m_state := 11,
        m_attribute_first := m_attribute_first p @ cs\<rparr>)"
proof (induction cs arbitrary: p s)
  case Nil
  then have "s\<lparr>unread := rest\<rparr> = s" by (simp add: stream_same)
  with Nil have "p\<lparr>m_current_char := last (m_current_char p # []),
        m_is := Some (s\<lparr>unread := rest\<rparr>),
        m_state := 11,
        m_attribute_first := m_attribute_first p @ []\<rparr> = p"
    by (cases p) simp
  then show ?case by simp
next
  case (Cons x cs)
  let ?s1 = "s\<lparr>unread := cs @ rest\<rparr>"
  let ?p1 = "p\<lparr>m_current_char := x, m_is := Some ?s1, m_state := 11,
               m_attribute_first := m_attribute_first p @ [x]\<rparr>"
  from Cons.prems(1) have nx: "name_char x" and ncs: "list_all name_char cs" by simp_all
  from nx Cons.prems(7)
  have "step sink (p\<lparr>m_current_char := x, m_is := Some ?s1\<rparr>) = Inr ?p1"
    by (auto simp: name_char_def step_by_state next_state_11 Let_def
          do_attribute_first_pushback_def)
  with Cons.prems have "parse_loop sink p = parse_loop sink ?p1"
    by (intro loop_char [where x = x and xs = "cs @ rest" and s = s]) simp_all
  also have "parse_loop sink ?p1 =
     parse_loop sink
       (?p1\<lparr>m_current_char := last (m_current_char ?p1 # cs),
            m_is := Some (?s1\<lparr>unread := rest\<rparr>),
            m_state := 11,
            m_attribute_first := m_attribute_first ?p1 @ cs\<rparr>)"
    using ncs Cons.prems by (intro Cons.IH) simp_all
  finally show ?case by simp
qed

lemma scan_value:
  "list_all (\<lambda>d. d \<noteq> CHR 0x22) cs \<Longrightarrow> m_is p = Some s \<Longrightarrow> \<not> eofbit s \<Longrightarrow> \<not> failbit s \<Longrightarrow>
   unread s = cs @ rest \<Longrightarrow> \<not> m_stop_flag p \<Longrightarrow> m_state p = 13 \<or> m_state p = 14 \<Longrightarrow>
   parse_loop sink p =
   parse_loop sink
     (p\<lparr>m_current_char := last (m_current_char p # cs),
        m_is := Some (s\<lparr>unread := rest\<rparr>),
        m_state := (if cs = [] then m_state p else 13),
        m_attribute_second := m_attribute_second p @ cs\<rparr>)"
proof (induction cs arbitrary: p s)
  case Nil
  then have "s\<lparr>unread := rest\<rparr> = s" by (simp add: stream_same)
  with Nil have "p\<lparr>m_current_char := last (m_current_char p # []),
        m_is := Some (s\<lparr>unread := rest\<rparr>),
        m_state := m_state p,
        m_attribute_second := m_attribute_second p @ []\<rparr> = p"
    by (cases p) simp
  then show ?case by simp
next
  case (Cons x cs)
  let ?s1 = "s\<lparr>unread := cs @ rest\<rparr>"
  let ?p1 = "p\<lparr>m_current_char := x, m_is := Some ?s1, m_state := 13,
               m_attribute_second := m_attribute_second p @ [x]\<rparr>"
  from Cons.prems(1) have nx: "x \<noteq> CHR 0x22" and ncs: "list_all (\<lambda>d. d \<noteq> CHR 0x22) cs"
    by simp_all
  from nx have sy: "getSymbolType x \<noteq> QUOTE" by (simp add: quote_iff)
  have nxt: "next_state (m_state p) (getSymbolType x) = 13"
    using Cons.prems(7) sy
    by (cases "getSymbolType x") (auto simp: next_state_13 next_state_14)
  then have "step sink (p\<lparr>m_current_char := x, m_is := Some ?s1\<rparr>) = Inr ?p1"
    by (simp add: step_by_state Let_def do_attribute_second_pushback_def)
  with Cons.prems have "parse_loop sink p = parse_loop sink ?p1"
    by (intro loop_char [where x = x and xs = "cs @ rest" and s = s]) simp_all
  also have "parse_loop sink ?p1 =
     parse_loop sink
       (?p1\<lparr>m_current_char := last (m_current_char ?p1 # cs),
            m_is := Some (?s1\<lparr>unread := rest\<rparr>),
            m_state := (if cs = [] then m_state ?p1 else 13),
            m_attribute_second := m_attribute_second ?p1 @ cs\<rparr>)"
    using ncs Cons.prems by (intro Cons.IH) simp_all
  finally show ?case by simp
qed


lemma scan_attribute:
  assumes k: "attribute_name k" and v: "attribute_value v"
    and s: "m_is p = Some s" "\<not> eofbit s" "\<not> failbit s"
      "unread s = CHR '' '' # k @ CHR ''='' # CHR 0x22 # v @ CHR 0x22 # rest"
    and p: "\<not> m_stop_flag p" "m_state p = 3 \<or> m_state p = 15"
      "m_attribute_first p = []" "m_attribute_second p = []"
  shows "parse_loop sink p =
     parse_loop sink
       (p\<lparr>m_current_char := CHR 0x22,
          m_is := Some (s\<lparr>unread := rest\<rparr>),
          m_state := 15,
          m_attributes := map_insert (m_attributes p) k v,
          m_attribute_first := [],
          m_attribute_second := []\<rparr>)"
proof -
  from k obtain c cs where kc: "k = c # cs" and c: "getSymbolType c = ALPHA"
      and cs: "list_all name_char cs"
    by (auto simp: attribute_name_def split: list.splits)
  from v have vs: "list_all (\<lambda>d. d \<noteq> CHR 0x22) v" by (simp add: attribute_value_def)
  have blank: "getSymbolType CHR '' '' = DELIMITER" and equal: "getSymbolType CHR ''='' = EQUAL"
    and quote: "getSymbolType CHR 0x22 = QUOTE"
    by (simp_all add: getSymbolType_def isalpha_def isdigit_def)
  let ?u1 = "c # cs @ CHR ''='' # CHR 0x22 # v @ CHR 0x22 # rest"
  let ?p1 = "p\<lparr>m_current_char := CHR '' '', m_is := Some (s\<lparr>unread := ?u1\<rparr>), m_state := 5\<rparr>"
  have "next_state (m_state p) DELIMITER = 5"
    using p(2) by (auto simp: next_state_3 next_state_15)
  then have "step sink (p\<lparr>m_current_char := CHR '' '', m_is := Some (s\<lparr>unread := ?u1\<rparr>)\<rparr>) = Inr ?p1"
    by (simp add: step_by_state Let_def blank)
  with s p(1) kc have e1: "parse_loop sink p = parse_loop sink ?p1"
    by (intro loop_char [where x = "CHR '' ''" and xs = ?u1 and s = s]) simp_all
  let ?u2 = "cs @ CHR ''='' # CHR 0x22 # v @ CHR 0x22 # rest"
  let ?p2 = "p\<lparr>m_current_char := c, m_is := Some (s\<lparr>unread := ?u2\<rparr>), m_state := 11,
               m_attribute_first := [c]\<rparr>"
  have "step sink (?p1\<lparr>m_current_char := c, m_is := Some (s\<lparr>unread := ?u1, unread := ?u2\<rparr>)\<rparr>) = Inr ?p2"
    using p(3) by (simp add: step_by_state next_state_5 Let_def c do_attribute_first_pushback_def)
  with s p(1) have e2: "parse_loop sink ?p1 = parse_loop sink ?p2"
    by (intro loop_char [where x = c and xs = ?u2 and s = "s\<lparr>unread := ?u1\<rparr>"]) simp_all
  let ?u3 = "CHR ''='' # CHR 0x22 # v @ CHR 0x22 # rest"
  let ?p3 = "p\<lparr>m_current_char := last (c # cs), m_is := Some (s\<lparr>unread := ?u3\<rparr>), m_state := 11,
               m_attribute_first := c # cs\<rparr>"
  have "parse_loop sink ?p2 =
     parse_loop sink
       (?p2\<lparr>m_current_char := last (m_current_char ?p2 # cs),
            m_is := Some (s\<lparr>unread := ?u2, unread := ?u3\<rparr>),
            m_state := 11,
            m_attribute_first := m_attribute_first ?p2 @ cs\<rparr>)"
    using cs s p(1) by (intro scan_name [where rest = ?u3]) simp_all
  then have e3: "parse_loop sink ?p2 = parse_loop sink ?p3" by (cases p) simp
  let ?u4 = "CHR 0x22 # v @ CHR 0x22 # rest"
  let ?p4 = "p\<lparr>m_current_char := CHR ''='', m_is := Some (s\<lparr>unread := ?u4\<rparr>), m_state := 12,
               m_attribute_first := c # cs\<rparr>"
  have "step sink (?p3\<lparr>m_current_char := CHR ''='', m_is := Some (s\<lparr>unread := ?u3, unread := ?u4\<rparr>)\<rparr>) = Inr ?p4"
    by (simp add: step_by_state next_state_11 Let_def equal)
  with s p(1) have e4: "parse_loop sink ?p3 = parse_loop sink ?p4"
    by (intro loop_char [where x = "CHR ''=''" and xs = ?u4 and s = "s\<lparr>unread := ?u3\<rparr>"]) simp_all
  let ?u5 = "v @ CHR 0x22 # rest"
  let ?p5 = "p\<lparr>m_current_char := CHR 0x22, m_is := Some (s\<lparr>unread := ?u5\<rparr>), m_state := 14,
               m_attribute_first := c # cs\<rparr>"
  have "step sink (?p4\<lparr>m_current_char := CHR 0x22, m_is := Some (s\<lparr>unread := ?u4, unread := ?u5\<rparr>)\<rparr>) = Inr ?p5"
    by (simp add: step_by_state next_state_12 Let_def quote)
  with s p(1) have e5: "parse_loop sink ?p4 = parse_loop sink ?p5"
    by (intro loop_char [where x = "CHR 0x22" and xs = ?u5 and s = "s\<lparr>unread := ?u4\<rparr>"]) simp_all
  let ?u6 = "CHR 0x22 # rest"
  let ?p6 = "p\<lparr>m_current_char := last (CHR 0x22 # v), m_is := Some (s\<lparr>unread := ?u6\<rparr>),
               m_state := (if v = [] then 14 else 13),
               m_attribute_first := c # cs, m_attribute_second := v\<rparr>"
  have "parse_loop sink ?p5 =
     parse_loop sink
       (?p5\<lparr>m_current_char := last (m_current_char ?p5 # v),
            m_is := Some (s\<lparr>unread := ?u5, unread := ?u6\<rparr>),
            m_state := (if v = [] then m_state ?p5 else 13),
            m_attribute_second := m_attribute_second ?p5 @ v\<rparr>)"
    using vs s p(1) by (intro scan_value [where rest = ?u6]) simp_all
  then have e6: "parse_loop sink ?p5 = parse_loop sink ?p6"
    using p(4) by (cases p; cases "v = []") simp_all
  let ?p7 = "p\<lparr>m_current_char := CHR 0x22, m_is := Some (s\<lparr>unread := rest\<rparr>), m_state := 15,
               m_attributes := map_insert (m_attributes p) (c # cs) v,
               m_attribute_first := [], m_attribute_second := []\<rparr>"
  have "next_state (m_state ?p6) QUOTE = 15"
    by (cases "v = []") (simp_all add: next_state_13 next_state_14)
  then have "step sink (?p6\<lparr>m_current_char := CHR 0x22, m_is := Some (s\<lparr>unread := ?u6, unread := rest\<rparr>)\<rparr>) = Inr ?p7"
    by (simp add: step_by_state Let_def quote do_attribute_store_def)
  with s p(1) have e7: "parse_loop sink ?p6 = parse_loop sink ?p7"
    by (intro loop_char [where x = "CHR 0x22" and xs = rest and s = "s\<lparr>unread := ?u6\<rparr>"]) simp_all
  from e1 e2 e3 e4 e5 e6 e7 kc show ?thesis by (cases p) simp
qed

lemma map_of_insert: "map_of kvs ++ map_insert m k v = map_of ((k, v) # kvs) ++ m"
  by (rule ext) (simp add: map_add_def map_insert_def split: option.splits)

lemma map_insert_single: "map_insert m k v = [k \<mapsto> v] ++ m"
  by (rule ext) (simp add: map_add_def map_insert_def split: option.splits)

lemma scan_attributes:
  "list_all (\<lambda>(k, v). attribute_name k \<and> attribute_value v) kvs \<Longrightarrow>
   m_is p = Some s \<Longrightarrow> \<not> eofbit s \<Longrightarrow> \<not> failbit s \<Longrightarrow>
   unread s = attributes_text kvs @ rest \<Longrightarrow> \<not> m_stop_flag p \<Longrightarrow>
   m_state p = 3 \<or> m_state p = 15 \<Longrightarrow> m_attribute_first p = [] \<Longrightarrow> m_attribute_second p = [] \<Longrightarrow>
   parse_loop sink p =
   parse_loop sink
     (p\<lparr>m_current_char := (if kvs = [] then m_current_char p else CHR 0x22),
        m_is := Some (s\<lparr>unread := rest\<rparr>),
        m_state := (if kvs = [] then m_state p else 15),
        m_attributes := map_of kvs ++ m_attributes p,
        m_attribute_first := [],
        m_attribute_second := []\<rparr>)"
proof (induction kvs arbitrary: p s)
  case Nil
  then have "s\<lparr>unread := rest\<rparr> = s" by (simp add: stream_same)
  with Nil have "p\<lparr>m_current_char := m_current_char p,
        m_is := Some (s\<lparr>unread := rest\<rparr>),
        m_state := m_state p,
        m_attributes := m_attributes p,
        m_attribute_first := [],
        m_attribute_second := []\<rparr> = p"
    by (cases p) simp
  then show ?case by simp
next
  case (Cons kv kvs)
  obtain k v where kv: "kv = (k, v)" by (cases kv)
  let ?u = "attributes_text kvs @ rest"
  let ?s1 = "s\<lparr>unread := ?u\<rparr>"
  let ?p1 = "p\<lparr>m_current_char := CHR 0x22, m_is := Some ?s1, m_state := 15,
               m_attributes := map_insert (m_attributes p) k v,
               m_attribute_first := [], m_attribute_second := []\<rparr>"
  from Cons.prems(1) kv have ok: "attribute_name k" "attribute_value v"
      and oks: "list_all (\<lambda>(k, v). attribute_name k \<and> attribute_value v) kvs"
    by simp_all
  have e1: "parse_loop sink p = parse_loop sink ?p1"
    using ok Cons.prems(2-4) _ Cons.prems(6-9)
  proof (rule scan_attribute)
    show "unread s = CHR '' '' # k @ CHR ''='' # CHR 0x22 # v @ CHR 0x22 # ?u"
      using Cons.prems(5) kv by simp
  qed
  let ?t = "p\<lparr>m_current_char := CHR 0x22,
              m_is := Some (s\<lparr>unread := rest\<rparr>),
              m_state := 15,
              m_attributes := map_of (kv # kvs) ++ m_attributes p,
              m_attribute_first := [],
              m_attribute_second := []\<rparr>"
  have ih: "parse_loop sink ?p1 =
     parse_loop sink
       (?p1\<lparr>m_current_char := (if kvs = [] then m_current_char ?p1 else CHR 0x22),
            m_is := Some (?s1\<lparr>unread := rest\<rparr>),
            m_state := (if kvs = [] then m_state ?p1 else 15),
            m_attributes := map_of kvs ++ m_attributes ?p1,
            m_attribute_first := [],
            m_attribute_second := []\<rparr>)"
    using oks Cons.prems by (intro Cons.IH) simp_all
  have "?p1\<lparr>m_current_char := (if kvs = [] then m_current_char ?p1 else CHR 0x22),
            m_is := Some (?s1\<lparr>unread := rest\<rparr>),
            m_state := (if kvs = [] then m_state ?p1 else 15),
            m_attributes := map_of kvs ++ m_attributes ?p1,
            m_attribute_first := [],
            m_attribute_second := []\<rparr> = ?t"
    using kv by (cases p; cases "kvs = []") (simp_all add: map_of_insert map_insert_single)
  with ih have "parse_loop sink ?p1 = parse_loop sink ?t" by (simp only:)
  with e1 have "parse_loop sink p = parse_loop sink ?t" by (simp only:)
  moreover have "p\<lparr>m_current_char := (if kv # kvs = [] then m_current_char p else CHR 0x22),
        m_is := Some (s\<lparr>unread := rest\<rparr>),
        m_state := (if kv # kvs = [] then m_state p else 15),
        m_attributes := map_of (kv # kvs) ++ m_attributes p,
        m_attribute_first := [],
        m_attribute_second := []\<rparr> = ?t"
    by simp
  ultimately show ?case by (simp only:)
qed


lemma tag_tail:
  assumes s: "m_is p = Some s" "\<not> eofbit s" "\<not> failbit s"
      "unread s = (if m_is_style p then ''?>'' else if slash then ''/>'' else ''>'') @ rest"
    and p: "\<not> m_stop_flag p" "m_state p = 3 \<or> m_state p = 15"
      "\<not> m_is_closing_tag p" "\<not> m_is_tag_no_body p"
  shows "\<exists>evs. delivered (parse_loop sink p) =
           events p @ (if m_is_style p then definitionHandle (m_tag p) (m_attributes p)
                       else elementStart (m_tag p) (m_attributes p)) # evs"
proof -
  have question: "getSymbolType CHR ''?'' = QUESTION" and tag_end: "getSymbolType CHR ''>'' = TAG_END"
    and slash: "getSymbolType CHR ''/'' = SLASH"
    by (simp_all add: getSymbolType_def isalpha_def isdigit_def)
  let ?ev = "if m_is_style p then definitionHandle (m_tag p) (m_attributes p)
             else elementStart (m_tag p) (m_attributes p)"
  have "\<exists>q more. parse_loop sink p = parse_loop sink q \<and> events q = events p @ ?ev # more"
  proof (cases "m_is_style p")
    case False
    show ?thesis
    proof (cases slash)
      case nslash: False
      let ?p1 = "p\<lparr>m_current_char := CHR ''>'', m_is := Some (s\<lparr>unread := rest\<rparr>)\<rparr>"
      have "next_state (m_state p) TAG_END = 6"
        using p(2) by (auto simp: next_state_3 next_state_15)
      then have "step sink ?p1 = do_tag_end sink (?p1\<lparr>m_state := 6\<rparr>)"
        by (simp add: step_by_state Let_def tag_end)
      moreover obtain q where q: "do_tag_end sink (?p1\<lparr>m_state := 6\<rparr>) = Inr q"
          "events q = events p @ [elementStart (m_tag p) (m_attributes p)]"
        using False p(3,4) by (simp add: do_tag_end_def emit_def do_all_clear_def)
      ultimately have "step sink ?p1 = Inr q" by simp
      with s p(1) False nslash have "parse_loop sink p = parse_loop sink q"
        by (intro loop_char [where x = "CHR ''>''" and xs = rest and s = s]) simp_all
      with q(2) False show ?thesis by auto
    next
      case yslash: True
      let ?p1 = "p\<lparr>m_current_char := CHR ''/'', m_is := Some (s\<lparr>unread := CHR ''>'' # rest\<rparr>)\<rparr>"
      let ?p2 = "?p1\<lparr>m_state := 7, m_is_tag_no_body := True\<rparr>"
      have "next_state (m_state p) SLASH = 7"
        using p(2) by (auto simp: next_state_3 next_state_15)
      then have "step sink ?p1 = Inr ?p2"
        using False p(3) by (simp add: step_by_state Let_def slash do_tag_wobody_close_def)
      with s p(1) False yslash have e1: "parse_loop sink p = parse_loop sink ?p2"
        by (intro loop_char [where x = "CHR ''/''" and xs = "CHR ''>'' # rest" and s = s]) simp_all
      let ?p3 = "?p2\<lparr>m_current_char := CHR ''>'',
                    m_is := Some (s\<lparr>unread := CHR ''>'' # rest, unread := rest\<rparr>)\<rparr>"
      have "step sink ?p3 = do_tag_end sink (?p3\<lparr>m_state := 6\<rparr>)"
        by (simp add: step_by_state Let_def tag_end next_state_7)
      moreover obtain q where q: "do_tag_end sink (?p3\<lparr>m_state := 6\<rparr>) = Inr q"
          "events q = events p @ [elementStart (m_tag p) (m_attributes p), elementEnd (m_tag p)]"
        using False p(3) by (simp add: do_tag_end_def emit_def do_all_clear_def)
      ultimately have "step sink ?p3 = Inr q" by simp
      with s p(1) have "parse_loop sink ?p2 = parse_loop sink q"
        by (intro loop_char [where x = "CHR ''>''" and xs = rest
              and s = "s\<lparr>unread := CHR ''>'' # rest\<rparr>"]) simp_all
      with e1 q(2) False show ?thesis by auto
    qed
  next
    case True
    let ?p1 = "p\<lparr>m_current_char := CHR ''?'', m_is := Some (s\<lparr>unread := CHR ''>'' # rest\<rparr>)\<rparr>"
    let ?p2 = "?p1\<lparr>m_state := 4\<rparr>"
    have "next_state (m_state p) QUESTION = 4"
      using p(2) by (auto simp: next_state_3 next_state_15)
    then have "step sink ?p1 = Inr ?p2"
      using True by (simp add: step_by_state Let_def question do_is_style_on_def)
    with s p(1) True have e1: "parse_loop sink p = parse_loop sink ?p2"
      by (intro loop_char [where x = "CHR ''?''" and xs = "CHR ''>'' # rest" and s = s]) simp_all
    let ?p3 = "?p2\<lparr>m_current_char := CHR ''>'',
                  m_is := Some (s\<lparr>unread := CHR ''>'' # rest, unread := rest\<rparr>)\<rparr>"
    have "step sink ?p3 = do_tag_end sink (?p3\<lparr>m_state := 6\<rparr>)"
      by (simp add: step_by_state Let_def tag_end next_state_4)
    moreover obtain q where q: "do_tag_end sink (?p3\<lparr>m_state := 6\<rparr>) = Inr q"
        "events q = events p @ [definitionHandle (m_tag p) (m_attributes p)]"
      using True p(3,4) by (simp add: do_tag_end_def emit_def do_all_clear_def)
    ultimately have "step sink ?p3 = Inr q" by simp
    with s p(1) have "parse_loop sink ?p2 = parse_loop sink q"
      by (intro loop_char [where x = "CHR ''>''" and xs = rest
            and s = "s\<lparr>unread := CHR ''>'' # rest\<rparr>"]) simp_all
    with e1 q(2) True show ?thesis by auto
  qed
  then obtain q more where q: "parse_loop sink p = parse_loop sink q"
      "events q = events p @ ?ev # more"
    by blast
  obtain evs where "events (parser_of (parse_loop sink q)) = events q @ evs"
    using parse_loop_appends [of sink q] by blast
  with q have "delivered (parse_loop sink p) = events p @ ?ev # (more @ evs)"
    by (simp add: delivered_def)
  then show ?thesis by blast
qed

lemma first_occurrence:
  "kvs = before @ (k, v) # after \<Longrightarrow> k \<notin> fst ` set before \<Longrightarrow> m k = None \<Longrightarrow>
   (map_of kvs ++ m) k = Some v"
proof -
  assume kvs: "kvs = before @ (k, v) # after" and m: "m k = None"
  assume "k \<notin> fst ` set before"
  then have "map_of before k = None" by (simp add: map_of_eq_None_iff)
  with kvs m show ?thesis by (simp add: map_add_def)
qed

text \<open>The way into a tag after a definition tag, and the end of the tag at the end of the stream.\<close>

lemma prologue_tag:
  "parse_loop quiet
     ((emit quiet documentStart (Parser_on (stream_of (''<?x?><a'' @ rest))))\<lparr>m_stop_flag := False\<rparr>) =
   parse_loop quiet
     \<lparr>m_state = 3, m_current_char = CHR ''a'',
      m_is = Some \<lparr>unread = rest, eofbit = False, failbit = False\<rparr>,
      m_text = [], m_tag = ''a'', m_attributes = Map.empty,
      m_attribute_first = [], m_attribute_second = [], m_comment = [],
      m_is_style = False, m_is_closing_tag = False, m_is_tag_no_body = False,
      m_stop_flag = False, events = [documentStart, definitionHandle ''x'' Map.empty]\<rparr>"
  by (simp add: parse_loop_read step_def rows getSymbolType_def
        isalpha_def isdigit_def m_rules_def rule_defs emit_def do_all_clear_def
        Parser_on_def Parser_members_def reset_def stream_of_def quiet_def Let_def)

lemma tag_close_at_end:
  assumes "m_is p = Some s" "\<not> eofbit s" "\<not> failbit s" "unread s = ''>''"
    and "\<not> m_stop_flag p" "m_state p = 3 \<or> m_state p = 15"
    and "\<not> m_is_style p" "\<not> m_is_closing_tag p" "\<not> m_is_tag_no_body p"
  shows "\<exists>q. parse_loop quiet p = Inr q \<and> \<not> m_stop_flag q \<and> stream_eof q
             \<and> events q = events p @ [elementStart (m_tag p) (m_attributes p)]"
proof -
  have tag_end: "getSymbolType CHR ''>'' = TAG_END"
    by (simp add: getSymbolType_def isalpha_def isdigit_def)
  have "next_state (m_state p) TAG_END = 6"
    using assms(6) by (auto simp: next_state_3 next_state_15)
  with assms(1-5,7-9) show ?thesis
    by (simp add: parse_loop_read parse_loop_end step_by_state Let_def tag_end do_tag_end_def
          emit_def do_all_clear_def quiet_def stream_eof_def)
qed

section \<open>The claims\<close>

subsection \<open>C1: the document of the end-to-end example\<close>

text \<open>
  C1, as stated, fails. The claim: for the input \<open><a x="1"><b/>text</a>\<close>, \<open>parse()\<close> emits
  documentStart, elementStart("a",{x:"1"}), elementStart("b",{}), elementEnd("b"),
  textHandle("text"), elementEnd("a"), documentEnd, and raises no error. On the code the
  second character already has no transition: row 1 of the table, the state after the
  first \<open><\<close>, accepts \<open>?\<close> only. The call delivers documentStart and throws the parsing
  error.
\<close>

theorem C1_counterexample:
  "thrown (parse quiet (Parser_on (stream_of ''<a x=\"1\"><b/>text</a>''))) = Some KISAX_ERROR_PARSING
   \<and> delivered (parse quiet (Parser_on (stream_of ''<a x=\"1\"><b/>text</a>''))) = [documentStart]
   \<and> delivered (parse quiet (Parser_on (stream_of ''<a x=\"1\"><b/>text</a>''))) \<noteq>
       [documentStart, elementStart ''a'' [''x'' \<mapsto> ''1''], elementStart ''b'' Map.empty,
        elementEnd ''b'', textHandle ''text'', elementEnd ''a'', documentEnd]"
  by (simp add: run)

text \<open>
  C1, amended: on \<open><a x="1"><b/>text</a>\<close> a fresh parser delivers documentStart and then
  throws the parsing error, whatever the handlers do (the header of kisax.h warns that a
  document must begin with a definition). On the same document after a definition tag,
  \<open><?xml?><a x="1"><b/>text</a>\<close>, with handlers that never call \<open>stop()\<close>, \<open>parse()\<close>
  delivers documentStart, definitionHandle("xml",{}), elementStart("a",{x:"1"}),
  elementStart("b",{}), elementEnd("b"), textHandle("text"), elementEnd("a"), documentEnd,
  in this order, and throws nothing.
\<close>

theorem C1_amended:
  "thrown (parse sink (Parser_on (stream_of ''<a x=\"1\"><b/>text</a>''))) = Some KISAX_ERROR_PARSING
   \<and> delivered (parse sink (Parser_on (stream_of ''<a x=\"1\"><b/>text</a>''))) = [documentStart]
   \<and> thrown (parse quiet (Parser_on (stream_of ''<?xml?><a x=\"1\"><b/>text</a>''))) = None
   \<and> delivered (parse quiet (Parser_on (stream_of ''<?xml?><a x=\"1\"><b/>text</a>''))) =
       [documentStart, definitionHandle ''xml'' Map.empty,
        elementStart ''a'' [''x'' \<mapsto> ''1''], elementStart ''b'' Map.empty,
        elementEnd ''b'', textHandle ''text'', elementEnd ''a'', documentEnd]"
  by (simp add: run)

subsection \<open>C2: stopping from a handler\<close>

text \<open>
  C2 holds of the documentation and fails on the code. The claim: when a handler calls
  \<open>stop()\<close>, no further event fires until \<open>parse()\<close> is called again, the stop takes
  effect before the next character is read, and the next \<open>parse()\<close> goes on from the next
  unread character without a second documentStart. The code, on the document
  \<open><?x?><a></a><b></b>\<close> with the handler of the header's example stopping at the end of
  \<open>a\<close>: the loop extracts the \<open><\<close> of \<open><b>\<close> before it tests the flag, so the stream is
  left at \<open>b></b>\<close>; \<open>documentEnd\<close> is called although the document is not finished; and
  the second \<open>parse()\<close>, which indeed sends no documentStart, takes \<open>b>\<close> for text and
  never reports the start of \<open>b\<close>. And a \<open>stop()\<close> called in \<open>documentStart\<close> is lost: the
  flag is cleared right after that handler returns, and the whole document is scanned.
\<close>

theorem C2_stop_loses_a_character:
  "thrown (parse (stop_at_tag ''a'') (Parser_on (stream_of ''<?x?><a></a><b></b>''))) = None
   \<and> delivered (parse (stop_at_tag ''a'') (Parser_on (stream_of ''<?x?><a></a><b></b>''))) =
       [documentStart, definitionHandle ''x'' Map.empty, elementStart ''a'' Map.empty,
        elementEnd ''a'', documentEnd]
   \<and> map_option unread
         (m_is (parser_of (parse (stop_at_tag ''a'') (Parser_on (stream_of ''<?x?><a></a><b></b>'')))))
       = Some ''b></b>''
   \<and> delivered
         (parse (stop_at_tag ''a'')
            (parser_of (parse (stop_at_tag ''a'') (Parser_on (stream_of ''<?x?><a></a><b></b>''))))) =
       [documentStart, definitionHandle ''x'' Map.empty, elementStart ''a'' Map.empty,
        elementEnd ''a'', documentEnd,
        textHandle ''b>'', elementEnd ''b'', documentEnd]
   \<and> delivered (parse stop_at_start (Parser_on (stream_of ''<?x?><a></a>''))) =
       [documentStart, definitionHandle ''x'' Map.empty, elementStart ''a'' Map.empty,
        elementEnd ''a'', documentEnd]"
  by (simp add: run)

subsection \<open>C3: the empty-element tag\<close>

text \<open>
  C3: a self-closing tag that reaches \<open>do_tag_end\<close> yields elementStart(name, attributes)
  and at once elementEnd(name), with the same name and nothing in between. In every
  state the object can be in with the empty-element flag up (and a row in the table),
  neither the definition flag nor the closing flag is up, so \<open>do_tag_end\<close> delivers
  exactly these two events and throws nothing; the scanner is then in state 7, where
  \<open>>\<close> runs \<open>do_tag_end\<close> and any other character is the parsing error, with no event.
\<close>

theorem C3_self_closing_tag:
  assumes "reachable sink p" and "0 \<le> m_state p" and "m_is_tag_no_body p"
  shows "delivered (do_tag_end sink p) =
           events p @ [elementStart (m_tag p) (m_attributes p), elementEnd (m_tag p)]
     \<and> thrown (do_tag_end sink p) = None
     \<and> (m_current_char p = CHR ''>'' \<longrightarrow>
          step sink p = do_tag_end sink (p\<lparr>m_state := 6\<rparr>)
          \<and> thrown (step sink p) = None
          \<and> delivered (step sink p) =
              events p @ [elementStart (m_tag p) (m_attributes p), elementEnd (m_tag p)])
     \<and> (m_current_char p \<noteq> CHR ''>'' \<longrightarrow>
          thrown (step sink p) = Some KISAX_ERROR_PARSING \<and> delivered (step sink p) = events p)"
proof -
  from assms(1) have "tag_inv p" by (rule tag_inv_reachable)
  with assms(2,3) have st: "m_state p = 7" and fl: "\<not> m_is_style p" "\<not> m_is_closing_tag p"
    by (auto simp: tag_inv_def)
  have a: "delivered (do_tag_end sink p) =
           events p @ [elementStart (m_tag p) (m_attributes p), elementEnd (m_tag p)]
     \<and> thrown (do_tag_end sink p) = None"
    using fl assms(3)
    by (simp add: do_tag_end_def emit_def do_all_clear_def delivered_def thrown_def parser_of_def)
  have b: "step sink p = do_tag_end sink (p\<lparr>m_state := 6\<rparr>)
          \<and> thrown (step sink p) = None
          \<and> delivered (step sink p) =
              events p @ [elementStart (m_tag p) (m_attributes p), elementEnd (m_tag p)]"
    if "m_current_char p = CHR ''>''"
  proof -
    from that have "getSymbolType (m_current_char p) = TAG_END" by (simp add: tag_end_iff)
    with st have "step sink p = do_tag_end sink (p\<lparr>m_state := 6\<rparr>)"
      by (simp add: step_by_state next_state_7 Let_def)
    with fl assms(3) show ?thesis
      by (simp add: do_tag_end_def emit_def do_all_clear_def delivered_def thrown_def parser_of_def)
  qed
  have c: "thrown (step sink p) = Some KISAX_ERROR_PARSING \<and> delivered (step sink p) = events p"
    if "m_current_char p \<noteq> CHR ''>''"
  proof -
    from that have "getSymbolType (m_current_char p) \<noteq> TAG_END" by (simp add: tag_end_iff)
    with st have "step sink p = Inl (KISAX_ERROR_PARSING, p\<lparr>m_state := - 1\<rparr>)"
      by (cases "getSymbolType (m_current_char p)")
         (simp_all add: step_by_state next_state_7 Let_def)
    then show ?thesis
      by (simp add: delivered_def thrown_def parser_of_def)
  qed
  from a b c show ?thesis by blast
qed

text \<open>
  The witness: the state after \<open><?x?><b/\<close>, when the \<open>>\<close> has been extracted from a
  stream bound afterwards; and the document \<open><?x?><b k="1"/>\<close> read in one go.
\<close>

theorem C3_witness:
  "delivered
     (step quiet
        (fst (get_char
           (bind (stream_of ''>'')
              (parser_of (parse quiet (Parser_on (stream_of ''<?x?><b/'')))))))) =
   [documentStart, definitionHandle ''x'' Map.empty, documentEnd,
    elementStart ''b'' Map.empty, elementEnd ''b'']
   \<and> delivered (parse quiet (Parser_on (stream_of ''<?x?><b k=\"1\"/>''))) =
       [documentStart, definitionHandle ''x'' Map.empty,
        elementStart ''b'' [''k'' \<mapsto> ''1''], elementEnd ''b'', documentEnd]"
proof
  let ?p0 = "Parser_on (stream_of ''<?x?><b/'')"
  let ?p1 = "parser_of (parse quiet ?p0)"
  let ?p2 = "bind (stream_of ''>'') ?p1"
  let ?p3 = "fst (get_char ?p2)"
  have r0: "reachable quiet ?p0"
    unfolding Parser_on_def by (rule reachable.constructed)
  have s0: "0 \<le> m_state ?p0" by (simp add: run)
  have r1: "reachable quiet ?p1" using r0 s0 by (rule reachable_parse)
  have r2: "reachable quiet ?p2" using r1 by (rule reachable.bound)
  have r3: "reachable quiet ?p3" using r2 by (rule reachable.extracted)
  have f: "m_state ?p3 = 7 \<and> m_is_tag_no_body ?p3 \<and> m_current_char ?p3 = CHR ''>''
      \<and> events ?p3 = [documentStart, definitionHandle ''x'' Map.empty, documentEnd]
      \<and> m_tag ?p3 = ''b'' \<and> m_attributes ?p3 = Map.empty"
    by (simp add: run get_char_def istream_get_def)
  from f have s3: "0 \<le> m_state ?p3" and n3: "m_is_tag_no_body ?p3"
    and c3: "m_current_char ?p3 = CHR ''>''" by simp_all
  from C3_self_closing_tag [OF r3 s3 n3] c3
  have "delivered (step quiet ?p3) =
     events ?p3 @ [elementStart (m_tag ?p3) (m_attributes ?p3), elementEnd (m_tag ?p3)]"
    by blast
  with f show "delivered (step quiet ?p3) =
     [documentStart, definitionHandle ''x'' Map.empty, documentEnd,
      elementStart ''b'' Map.empty, elementEnd ''b'']"
    by simp
next
  show "delivered (parse quiet (Parser_on (stream_of ''<?x?><b k=\"1\"/>''))) =
       [documentStart, definitionHandle ''x'' Map.empty,
        elementStart ''b'' [''k'' \<mapsto> ''1''], elementEnd ''b'', documentEnd]"
    by (simp add: run)
qed

subsection \<open>C4: a closing tag with attributes\<close>

text \<open>
  C4, as stated, fails. The claim: whenever \<open>do_tag_end\<close> runs with the closing-tag flag
  set and a non-empty attribute collection, \<open>parse()\<close> fails with
  ClosingTagWithAttributes. \<open>do_tag_end\<close> looks at the definition flag first. In the
  document \<open><?x?></ <?y a="1"?>\<close> the blank after \<open></\<close> sends the scanner back to state 0
  with the closing flag up (row 9), \<open><?\<close> then sets the definition flag beside it, and
  at the final \<open>>\<close> \<open>do_tag_end\<close> runs with the closing flag set and the attribute
  \<open>a\<close> stored: it calls definitionHandle and nothing is thrown. (The first conjuncts
  show the object just before that \<open>>\<close>. The last one: the example \<open></a a="1">\<close> of the
  spec, as a whole document, stops at its second character with the parsing error.)
\<close>

theorem C4_counterexample:
  "m_is_closing_tag (parser_of (parse quiet (Parser_on (stream_of ''<?x?></ <?y a=\"1\"?''))))
   \<and> m_attributes (parser_of (parse quiet (Parser_on (stream_of ''<?x?></ <?y a=\"1\"?'')))) =
       [''a'' \<mapsto> ''1'']
   \<and> m_state (parser_of (parse quiet (Parser_on (stream_of ''<?x?></ <?y a=\"1\"?'')))) = 4
   \<and> next_state 4 (getSymbolType CHR ''>'') = 6
   \<and> thrown (parse quiet (Parser_on (stream_of ''<?x?></ <?y a=\"1\"?>''))) = None
   \<and> delivered (parse quiet (Parser_on (stream_of ''<?x?></ <?y a=\"1\"?>''))) =
       [documentStart, definitionHandle ''x'' Map.empty,
        definitionHandle ''y'' [''a'' \<mapsto> ''1''], documentEnd]
   \<and> thrown (parse quiet (Parser_on (stream_of ''</a a=\"1\">''))) = Some KISAX_ERROR_PARSING"
  by (simp add: run)

text \<open>
  C4, amended: whenever \<open>do_tag_end\<close> runs with the definition flag clear, the
  closing-tag flag set and a non-empty attribute collection, it throws
  ClosingTagWithAttributes and leaves the object as it is, so that no elementEnd (no
  event at all) is delivered for that tag. When the next character of the stream leads
  to state 6, the loop entered with the stop flag down throws that error without an
  event, and so does a \<open>parse()\<close> called in that state, after the documentStart it sends
  unless it resumes a stopped parse.
\<close>

theorem C4_closing_tag_with_attributes:
  assumes "\<not> m_is_style p" and "m_is_closing_tag p" and "m_attributes p \<noteq> Map.empty"
  shows "do_tag_end sink p = Inl (KISAX_ERROR_CLOSING_TAG_WITH_ATTRIBUTES, p)
     \<and> (ahead p (c # rest) \<and> next_state (m_state p) (getSymbolType c) = 6 \<longrightarrow>
          (\<not> m_stop_flag p \<longrightarrow>
             thrown (parse_loop sink p) = Some KISAX_ERROR_CLOSING_TAG_WITH_ATTRIBUTES
             \<and> delivered (parse_loop sink p) = events p)
          \<and> thrown (parse sink p) = Some KISAX_ERROR_CLOSING_TAG_WITH_ATTRIBUTES
          \<and> delivered (parse sink p) =
              (if m_stop_flag p then events p else events p @ [documentStart]))"
proof -
  have a: "do_tag_end sink q = Inl (KISAX_ERROR_CLOSING_TAG_WITH_ATTRIBUTES, q)"
    if "\<not> m_is_style q" "m_is_closing_tag q" "m_attributes q \<noteq> Map.empty" for q
    using that by (simp add: do_tag_end_def)
  have loop: "parse_loop sink q =
      Inl (KISAX_ERROR_CLOSING_TAG_WITH_ATTRIBUTES,
           q\<lparr>m_current_char := c, m_is := Some (s\<lparr>unread := rest\<rparr>), m_state := 6\<rparr>)"
    if "m_is q = Some s" "\<not> eofbit s" "\<not> failbit s" "unread s = c # rest" "\<not> m_stop_flag q"
       "next_state (m_state q) (getSymbolType c) = 6"
       "\<not> m_is_style q" "m_is_closing_tag q" "m_attributes q \<noteq> Map.empty" for q s
    using that by (simp add: parse_loop_read step_by_state Let_def a)
  have b: "(\<not> m_stop_flag p \<longrightarrow>
             thrown (parse_loop sink p) = Some KISAX_ERROR_CLOSING_TAG_WITH_ATTRIBUTES
             \<and> delivered (parse_loop sink p) = events p)
          \<and> thrown (parse sink p) = Some KISAX_ERROR_CLOSING_TAG_WITH_ATTRIBUTES
          \<and> delivered (parse sink p) =
              (if m_stop_flag p then events p else events p @ [documentStart])"
    if ah: "ahead p (c # rest)" and nx: "next_state (m_state p) (getSymbolType c) = 6"
  proof -
    from ah obtain s where s: "m_is p = Some s" "\<not> eofbit s" "\<not> failbit s" "unread s = c # rest"
      by (auto simp: ahead_def split: option.splits)
    let ?p2 = "(if \<not> m_stop_flag p then emit sink documentStart p else p)\<lparr>m_stop_flag := False\<rparr>"
    have l2: "parse_loop sink ?p2 =
      Inl (KISAX_ERROR_CLOSING_TAG_WITH_ATTRIBUTES,
           ?p2\<lparr>m_current_char := c, m_is := Some (s\<lparr>unread := rest\<rparr>), m_state := 6\<rparr>)"
      using s nx assms by (intro loop) (simp_all add: emit_def)
    have l1: "parse_loop sink p =
      Inl (KISAX_ERROR_CLOSING_TAG_WITH_ATTRIBUTES,
           p\<lparr>m_current_char := c, m_is := Some (s\<lparr>unread := rest\<rparr>), m_state := 6\<rparr>)"
      if "\<not> m_stop_flag p"
      using s that nx assms by (intro loop)
    from l1 have "\<not> m_stop_flag p \<longrightarrow>
             thrown (parse_loop sink p) = Some KISAX_ERROR_CLOSING_TAG_WITH_ATTRIBUTES
             \<and> delivered (parse_loop sink p) = events p"
      by (simp add: thrown_def delivered_def parser_of_def)
    moreover from l2 s(1)
    have "thrown (parse sink p) = Some KISAX_ERROR_CLOSING_TAG_WITH_ATTRIBUTES
          \<and> delivered (parse sink p) =
              (if m_stop_flag p then events p else events p @ [documentStart])"
      by (simp add: parse_def Let_def thrown_def delivered_def parser_of_def emit_def)
    ultimately show ?thesis by blast
  qed
  from a [OF assms] b show ?thesis by blast
qed

text \<open>
  The witness: the parser left by \<open><?x?></a a="1"\<close>, bound to the final \<open>>\<close>; and the
  document \<open><?x?></a a="1">\<close> read in one go, which delivers no elementEnd.
\<close>

theorem C4_witness:
  "thrown
     (parse quiet
        (bind (stream_of ''>'')
           (parser_of (parse quiet (Parser_on (stream_of ''<?x?></a a=\"1\"'')))))) =
     Some KISAX_ERROR_CLOSING_TAG_WITH_ATTRIBUTES
   \<and> thrown (parse quiet (Parser_on (stream_of ''<?x?></a a=\"1\">''))) =
       Some KISAX_ERROR_CLOSING_TAG_WITH_ATTRIBUTES
   \<and> delivered (parse quiet (Parser_on (stream_of ''<?x?></a a=\"1\">''))) =
       [documentStart, definitionHandle ''x'' Map.empty]"
proof
  let ?p = "bind (stream_of ''>'')
              (parser_of (parse quiet (Parser_on (stream_of ''<?x?></a a=\"1\"''))))"
  have f: "\<not> m_is_style ?p" "m_is_closing_tag ?p" "m_attributes ?p \<noteq> Map.empty"
    by (simp_all add: run)
  have g: "ahead ?p (CHR ''>'' # []) \<and> next_state (m_state ?p) (getSymbolType CHR ''>'') = 6"
    by (simp add: run ahead_def)
  from C4_closing_tag_with_attributes [OF f, where c = "CHR ''>''" and rest = "[]" and sink = quiet] g
  show "thrown (parse quiet ?p) = Some KISAX_ERROR_CLOSING_TAG_WITH_ATTRIBUTES"
    by blast
next
  show "thrown (parse quiet (Parser_on (stream_of ''<?x?></a a=\"1\">''))) =
       Some KISAX_ERROR_CLOSING_TAG_WITH_ATTRIBUTES
   \<and> delivered (parse quiet (Parser_on (stream_of ''<?x?></a a=\"1\">''))) =
       [documentStart, definitionHandle ''x'' Map.empty]"
    by (simp add: run)
qed

subsection \<open>C5: an attribute name given twice\<close>

text \<open>
  C5: when a tag has two or more attributes of the same name, the collection handed to
  \<open>elementStart\<close> or \<open>definitionHandle\<close> maps the name to the value of its first
  occurrence. Take any list of attributes (pairs of a name and a value the table
  accepts). When the scanner stands after the name of a tag (state 3) or after an
  attribute (state 15) and the stream goes on with the attributes, each after one blank,
  and the end of the tag (\<open>?>\<close> for a definition tag, \<open>>\<close> or \<open>/>\<close> otherwise), the next event is
  the start of the tag with the collection \<open>map_of kvs ++ m_attributes p\<close>: a name already
  stored keeps its value, and for a name not yet stored the first pair of the list that
  has it gives the value, whatever comes later. And the document made of a definition
  tag and the tag \<open>a\<close> with these attributes delivers elementStart with \<open>map_of kvs\<close>.
\<close>

theorem C5_first_attribute_wins:
  assumes "list_all (\<lambda>(k, v). attribute_name k \<and> attribute_value v) kvs"
  shows "((m_state p = 3 \<or> m_state p = 15)
          \<and> m_attribute_first p = [] \<and> m_attribute_second p = []
          \<and> \<not> m_stop_flag p \<and> \<not> m_is_closing_tag p \<and> \<not> m_is_tag_no_body p
          \<and> ahead p (attributes_text kvs @ (if m_is_style p then ''?>'' else if slash then ''/>'' else ''>'') @ rest) \<longrightarrow>
          (\<exists>evs. delivered (parse_loop sink p) =
             events p @
             (if m_is_style p then definitionHandle (m_tag p) (map_of kvs ++ m_attributes p)
              else elementStart (m_tag p) (map_of kvs ++ m_attributes p)) # evs))
     \<and> (\<forall>before k v after.
            kvs = before @ (k, v) # after \<and> k \<notin> fst ` set before \<and> m_attributes p k = None \<longrightarrow>
            (map_of kvs ++ m_attributes p) k = Some v)
     \<and> thrown (parse quiet (Parser_on (stream_of (''<?x?><a'' @ attributes_text kvs @ ''>'')))) = None
     \<and> delivered (parse quiet (Parser_on (stream_of (''<?x?><a'' @ attributes_text kvs @ ''>'')))) =
         [documentStart, definitionHandle ''x'' Map.empty, elementStart ''a'' (map_of kvs),
          documentEnd]"
proof -
  have a: "\<exists>evs. delivered (parse_loop sink p) =
            events p @
            (if m_is_style p then definitionHandle (m_tag p) (map_of kvs ++ m_attributes p)
             else elementStart (m_tag p) (map_of kvs ++ m_attributes p)) # evs"
    if h: "(m_state p = 3 \<or> m_state p = 15)
          \<and> m_attribute_first p = [] \<and> m_attribute_second p = []
          \<and> \<not> m_stop_flag p \<and> \<not> m_is_closing_tag p \<and> \<not> m_is_tag_no_body p
          \<and> ahead p (attributes_text kvs @ (if m_is_style p then ''?>'' else if slash then ''/>'' else ''>'') @ rest)"
  proof -
    from h have st: "m_state p = 3 \<or> m_state p = 15" and bf: "m_attribute_first p = []"
        "m_attribute_second p = []" and ns: "\<not> m_stop_flag p"
        and fl: "\<not> m_is_closing_tag p" "\<not> m_is_tag_no_body p"
        and ah: "ahead p (attributes_text kvs @ (if m_is_style p then ''?>'' else if slash then ''/>'' else ''>'') @ rest)"
      by simp_all
    from ah obtain s where s: "m_is p = Some s" "\<not> eofbit s" "\<not> failbit s"
        "unread s = attributes_text kvs @ (if m_is_style p then ''?>'' else if slash then ''/>'' else ''>'') @ rest"
      by (auto simp: ahead_def split: option.splits)
    let ?tail = "(if m_is_style p then ''?>'' else if slash then ''/>'' else ''>'') @ rest"
    define p1 where "p1 = p\<lparr>m_current_char := (if kvs = [] then m_current_char p else CHR 0x22),
          m_is := Some (s\<lparr>unread := ?tail\<rparr>),
          m_state := (if kvs = [] then m_state p else 15),
          m_attributes := map_of kvs ++ m_attributes p,
          m_attribute_first := [],
          m_attribute_second := []\<rparr>"
    have e: "parse_loop sink p = parse_loop sink p1"
      unfolding p1_def using assms s ns st bf by (rule scan_attributes)
    have f: "events p1 = events p" "m_is_style p1 = m_is_style p" "m_tag p1 = m_tag p"
        "m_attributes p1 = map_of kvs ++ m_attributes p"
      by (simp_all add: p1_def)
    have "\<exists>evs. delivered (parse_loop sink p1) =
             events p1 @ (if m_is_style p1 then definitionHandle (m_tag p1) (m_attributes p1)
                         else elementStart (m_tag p1) (m_attributes p1)) # evs"
    proof (rule tag_tail [where s = "s\<lparr>unread := ?tail\<rparr>" and rest = rest and slash = slash])
      show "m_is p1 = Some (s\<lparr>unread := ?tail\<rparr>)" by (simp add: p1_def)
      show "\<not> eofbit (s\<lparr>unread := ?tail\<rparr>)" "\<not> failbit (s\<lparr>unread := ?tail\<rparr>)"
        using s by simp_all
      show "unread (s\<lparr>unread := ?tail\<rparr>) = (if m_is_style p1 then ''?>'' else if slash then ''/>'' else ''>'') @ rest"
        by (simp add: p1_def)
      show "\<not> m_stop_flag p1" "\<not> m_is_closing_tag p1" "\<not> m_is_tag_no_body p1"
        using ns fl by (simp_all add: p1_def)
      show "m_state p1 = 3 \<or> m_state p1 = 15"
        using st by (auto simp: p1_def)
    qed
    then show ?thesis by (simp only: e f)
  qed
  have b: "\<forall>before k v after.
            kvs = before @ (k, v) # after \<and> k \<notin> fst ` set before \<and> m_attributes p k = None \<longrightarrow>
            (map_of kvs ++ m_attributes p) k = Some v"
    using first_occurrence [where kvs = kvs and m = "m_attributes p"] by blast
  let ?doc = "''<?x?><a'' @ attributes_text kvs @ ''>''"
  let ?s3 = "\<lparr>unread = attributes_text kvs @ ''>'', eofbit = False, failbit = False\<rparr>"
  define p3 where "p3 = \<lparr>m_state = 3, m_current_char = CHR ''a'', m_is = Some ?s3,
      m_text = [], m_tag = ''a'', m_attributes = Map.empty,
      m_attribute_first = [], m_attribute_second = [], m_comment = [],
      m_is_style = False, m_is_closing_tag = False, m_is_tag_no_body = False,
      m_stop_flag = False, events = [documentStart, definitionHandle ''x'' Map.empty]\<rparr>"
  define p4 where "p4 = p3\<lparr>m_current_char := (if kvs = [] then m_current_char p3 else CHR 0x22),
          m_is := Some (?s3\<lparr>unread := ''>''\<rparr>),
          m_state := (if kvs = [] then m_state p3 else 15),
          m_attributes := map_of kvs ++ m_attributes p3,
          m_attribute_first := [],
          m_attribute_second := []\<rparr>"
  have e3: "parse_loop quiet p3 = parse_loop quiet p4"
    unfolding p4_def
  proof (rule scan_attributes [OF assms, where s = ?s3])
    show "m_is p3 = Some ?s3" "\<not> m_stop_flag p3" "m_state p3 = 3 \<or> m_state p3 = 15"
        "m_attribute_first p3 = []" "m_attribute_second p3 = []"
      by (simp_all add: p3_def)
    show "\<not> eofbit ?s3" "\<not> failbit ?s3" "unread ?s3 = attributes_text kvs @ ''>''"
      by simp_all
  qed
  have "\<exists>q. parse_loop quiet p4 = Inr q \<and> \<not> m_stop_flag q \<and> stream_eof q
             \<and> events q = events p4 @ [elementStart (m_tag p4) (m_attributes p4)]"
  proof (rule tag_close_at_end [where s = "?s3\<lparr>unread := ''>''\<rparr>"])
    show "m_is p4 = Some (?s3\<lparr>unread := ''>''\<rparr>)" by (simp add: p4_def)
    show "\<not> eofbit (?s3\<lparr>unread := ''>''\<rparr>)" "\<not> failbit (?s3\<lparr>unread := ''>''\<rparr>)"
        "unread (?s3\<lparr>unread := ''>''\<rparr>) = ''>''"
      by simp_all
    show "\<not> m_stop_flag p4" "\<not> m_is_style p4" "\<not> m_is_closing_tag p4" "\<not> m_is_tag_no_body p4"
      by (simp_all add: p4_def p3_def)
    show "m_state p4 = 3 \<or> m_state p4 = 15"
      by (simp add: p4_def p3_def)
  qed
  then obtain q where q: "parse_loop quiet p4 = Inr q" "\<not> m_stop_flag q" "stream_eof q"
      "events q = [documentStart, definitionHandle ''x'' Map.empty, elementStart ''a'' (map_of kvs)]"
    by (auto simp: p4_def p3_def)
  have "parse_loop quiet
     ((emit quiet documentStart (Parser_on (stream_of ?doc)))\<lparr>m_stop_flag := False\<rparr>) = Inr q"
    using prologue_tag [of "attributes_text kvs @ ''>''"] e3 q(1) by (simp add: p3_def)
  then have "parse quiet (Parser_on (stream_of ?doc)) = Inr (emit quiet documentEnd q)"
    using q(2,3)
    by (simp add: parse_def Let_def Parser_on_def Parser_members_def reset_def do_all_clear_def
          stream_of_def)
  with q(4) have c: "thrown (parse quiet (Parser_on (stream_of ?doc))) = None
     \<and> delivered (parse quiet (Parser_on (stream_of ?doc))) =
         [documentStart, definitionHandle ''x'' Map.empty, elementStart ''a'' (map_of kvs),
          documentEnd]"
    by (simp add: thrown_def delivered_def parser_of_def emit_def)
  from a b c show ?thesis by blast
qed

text \<open>
  The witness: the parser left by \<open><?x?><a\<close>, bound to the rest of the tag with the name
  \<open>k\<close> twice; and the document \<open><?x?><a k="1" j="2" k="3">\<close> read in one go.
\<close>

theorem C5_witness:
  "(\<exists>evs. delivered
            (parse_loop quiet
               (bind (stream_of '' k=\"1\" j=\"2\" k=\"3\">'')
                  (parser_of (parse quiet (Parser_on (stream_of ''<?x?><a'')))))) =
          [documentStart, definitionHandle ''x'' Map.empty, documentEnd,
           elementStart ''a'' (map_of [(''k'', ''1''), (''j'', ''2''), (''k'', ''3'')])] @ evs)
   \<and> map_of [(''k'', ''1''), (''j'', ''2''), (''k'', ''3'')] ''k'' = Some ''1''
   \<and> delivered (parse quiet (Parser_on (stream_of ''<?x?><a k=\"1\" j=\"2\" k=\"3\">''))) =
       [documentStart, definitionHandle ''x'' Map.empty,
        elementStart ''a'' [''k'' \<mapsto> ''1'', ''j'' \<mapsto> ''2''], documentEnd]"
proof -
  let ?kvs = "[(''k'', ''1''), (''j'', ''2''), (''k'', ''3'')]"
  let ?p = "bind (stream_of '' k=\"1\" j=\"2\" k=\"3\">'')
              (parser_of (parse quiet (Parser_on (stream_of ''<?x?><a''))))"
  have ok: "list_all (\<lambda>(k, v). attribute_name k \<and> attribute_value v) ?kvs"
    by (simp add: attribute_name_def attribute_value_def name_char_def getSymbolType_def
          isalpha_def isdigit_def)
  have g: "\<not> m_is_style ?p" "m_tag ?p = ''a''" "m_attributes ?p = Map.empty"
      "events ?p = [documentStart, definitionHandle ''x'' Map.empty, documentEnd]"
    by (simp_all add: run)
  have f: "(m_state ?p = 3 \<or> m_state ?p = 15)
          \<and> m_attribute_first ?p = [] \<and> m_attribute_second ?p = []
          \<and> \<not> m_stop_flag ?p \<and> \<not> m_is_closing_tag ?p \<and> \<not> m_is_tag_no_body ?p
          \<and> ahead ?p (attributes_text ?kvs @ (if m_is_style ?p then ''?>'' else if False then ''/>'' else ''>'') @ [])"
    by (simp add: run ahead_def)
  note c5 = C5_first_attribute_wins [OF ok, where p = ?p and rest = "[]" and sink = quiet
      and slash = False]
  from c5 [THEN conjunct1, THEN mp, OF f] have a: "\<exists>evs. delivered (parse_loop quiet ?p) =
          [documentStart, definitionHandle ''x'' Map.empty, documentEnd,
           elementStart ''a'' (map_of ?kvs)] @ evs"
    by (simp only: g if_False map_add_empty append_Cons append_Nil)
  have h: "?kvs = [] @ (''k'', ''1'') # [(''j'', ''2''), (''k'', ''3'')]
        \<and> ''k'' \<notin> fst ` set [] \<and> m_attributes ?p ''k'' = None"
    by (simp add: g)
  from c5 [THEN conjunct2, THEN conjunct1, THEN spec, THEN spec, THEN spec, THEN spec, THEN mp, OF h]
  have b: "map_of ?kvs ''k'' = Some ''1''"
    by (simp only: g map_add_empty)
  have c: "delivered (parse quiet (Parser_on (stream_of ''<?x?><a k=\"1\" j=\"2\" k=\"3\">''))) =
       [documentStart, definitionHandle ''x'' Map.empty,
        elementStart ''a'' [''k'' \<mapsto> ''1'', ''j'' \<mapsto> ''2''], documentEnd]"
    by (simp add: run)
  from a b c show ?thesis by blast
qed

subsection \<open>C6: two minus signs inside a comment\<close>

text \<open>
  C6: a comment body containing \<open>--\<close> not immediately followed by \<open>>\<close> raises the parsing
  error. Take any characters holding no \<open>--\<close>, then \<open>--\<close> and a character other than
  \<open>>\<close>. When the scanner is in the body of a comment (state 20 at its start, state 21
  after a character of it) and the stream goes on with them, \<open>parse()\<close> throws the parsing
  error, whatever the handlers do, and the loop, entered with the stop flag down, throws
  it without any event. And a document that has them in its first comment, right after a
  definition tag, is refused with the parsing error after documentStart and the
  definition.
\<close>

theorem C6_double_minus_in_comment:
  assumes "no_double_minus pre" and "c \<noteq> CHR ''>''"
  shows "((m_state p = 20 \<or> m_state p = 21) \<and> ahead p (pre @ ''--'' @ c # rest) \<longrightarrow>
          thrown (parse sink p) = Some KISAX_ERROR_PARSING
          \<and> (\<not> m_stop_flag p \<longrightarrow>
               thrown (parse_loop sink p) = Some KISAX_ERROR_PARSING
               \<and> delivered (parse_loop sink p) = events p))
     \<and> thrown (parse quiet (Parser_on (stream_of (''<?x?><!--'' @ pre @ ''--'' @ c # rest)))) =
         Some KISAX_ERROR_PARSING
     \<and> delivered (parse quiet (Parser_on (stream_of (''<?x?><!--'' @ pre @ ''--'' @ c # rest)))) =
         [documentStart, definitionHandle ''x'' Map.empty]"
proof -
  have loop: "\<exists>q. parse_loop sink' p' = Inl (KISAX_ERROR_PARSING, q) \<and> events q = events p'"
    if "m_is p' = Some s" "\<not> eofbit s" "\<not> failbit s"
       "unread s = pre @ CHR ''-'' # CHR ''-'' # c # rest"
       "\<not> m_stop_flag p'" "m_state p' = 20 \<or> m_state p' = 21" for p' s sink'
    using assms(2,1) that(1-5)
  proof (rule comment_throws)
    show "m_state p' = 20 \<or> m_state p' = 21 \<or>
          (m_state p' = 22 \<and> (pre = [] \<or> hd pre \<noteq> CHR ''-''))"
      using that(6) by auto
  qed
  have a: "thrown (parse sink p) = Some KISAX_ERROR_PARSING
          \<and> (\<not> m_stop_flag p \<longrightarrow>
               thrown (parse_loop sink p) = Some KISAX_ERROR_PARSING
               \<and> delivered (parse_loop sink p) = events p)"
    if st: "m_state p = 20 \<or> m_state p = 21" and ah: "ahead p (pre @ ''--'' @ c # rest)"
  proof -
    from ah obtain s where s: "m_is p = Some s" "\<not> eofbit s" "\<not> failbit s"
        "unread s = pre @ CHR ''-'' # CHR ''-'' # c # rest"
      by (auto simp: ahead_def split: option.splits)
    let ?p2 = "(if \<not> m_stop_flag p then emit sink documentStart p else p)\<lparr>m_stop_flag := False\<rparr>"
    have "\<exists>q. parse_loop sink ?p2 = Inl (KISAX_ERROR_PARSING, q) \<and> events q = events ?p2"
      using s st by (intro loop [where s = s]) (simp_all add: emit_def)
    then have "thrown (parse sink p) = Some KISAX_ERROR_PARSING"
      using s(1) by (auto simp: parse_def Let_def thrown_def)
    moreover have "thrown (parse_loop sink p) = Some KISAX_ERROR_PARSING
          \<and> delivered (parse_loop sink p) = events p" if "\<not> m_stop_flag p"
      using loop [OF s that st, of sink] by (auto simp: thrown_def delivered_def parser_of_def)
    ultimately show ?thesis by blast
  qed
  let ?doc = "''<?x?><!--'' @ pre @ ''--'' @ c # rest"
  let ?p20 = "\<lparr>m_state = 20, m_current_char = CHR ''-'',
      m_is = Some \<lparr>unread = pre @ ''--'' @ c # rest, eofbit = False, failbit = False\<rparr>,
      m_text = [], m_tag = [], m_attributes = Map.empty,
      m_attribute_first = [], m_attribute_second = [], m_comment = [],
      m_is_style = False, m_is_closing_tag = False, m_is_tag_no_body = False,
      m_stop_flag = False, events = [documentStart, definitionHandle ''x'' Map.empty]\<rparr>"
  have "\<exists>q. parse_loop quiet ?p20 = Inl (KISAX_ERROR_PARSING, q) \<and> events q = events ?p20"
    by (rule loop [where s = "\<lparr>unread = pre @ ''--'' @ c # rest, eofbit = False, failbit = False\<rparr>"])
       simp_all
  then obtain q where q: "parse_loop quiet ?p20 = Inl (KISAX_ERROR_PARSING, q)"
      "events q = [documentStart, definitionHandle ''x'' Map.empty]"
    by auto
  have "parse quiet (Parser_on (stream_of ?doc)) = Inl (KISAX_ERROR_PARSING, q)"
    using q(1) prologue_comment [of "pre @ ''--'' @ c # rest"]
    by (simp add: parse_def Let_def Parser_on_def Parser_members_def reset_def do_all_clear_def
          stream_of_def)
  with q(2) have b: "thrown (parse quiet (Parser_on (stream_of ?doc))) = Some KISAX_ERROR_PARSING
     \<and> delivered (parse quiet (Parser_on (stream_of ?doc))) =
         [documentStart, definitionHandle ''x'' Map.empty]"
    by (simp add: thrown_def delivered_def parser_of_def)
  from a b show ?thesis by blast
qed

text \<open>
  The witness: a parser left at the start of a comment body by \<open><?x?><!--\<close> and bound
  to \<open>a-b--c-->\<close>.
\<close>

theorem C6_witness:
  "thrown
     (parse quiet
        (bind (stream_of ''a-b--c-->'')
           (parser_of (parse quiet (Parser_on (stream_of ''<?x?><!--'')))))) =
     Some KISAX_ERROR_PARSING
   \<and> thrown (parse quiet (Parser_on (stream_of (''<?x?><!--'' @ ''a-b'' @ ''--'' @ CHR ''c'' # ''-->'')))) =
       Some KISAX_ERROR_PARSING"
proof -
  let ?p = "bind (stream_of ''a-b--c-->'')
              (parser_of (parse quiet (Parser_on (stream_of ''<?x?><!--''))))"
  have nd: "no_double_minus ''a-b''" by simp
  have c: "CHR ''c'' \<noteq> CHR ''>''" by simp
  have h: "(m_state ?p = 20 \<or> m_state ?p = 21) \<and> ahead ?p (''a-b'' @ ''--'' @ CHR ''c'' # ''-->'')"
    by (simp add: run ahead_def)
  note c6 = C6_double_minus_in_comment [OF nd c, where p = ?p and rest = "''-->''" and sink = quiet]
  from c6 [THEN conjunct1, THEN mp, OF h]
  have a: "thrown (parse quiet ?p) = Some KISAX_ERROR_PARSING" by (rule conjunct1)
  from c6 [THEN conjunct2]
  have b: "thrown (parse quiet (Parser_on (stream_of (''<?x?><!--'' @ ''a-b'' @ ''--'' @ CHR ''c'' # ''-->'')))) =
       Some KISAX_ERROR_PARSING"
    by (rule conjunct1)
  from a b show ?thesis by (rule conjI)
qed

subsection \<open>C7: a single minus inside a comment\<close>

text \<open>
  C7 holds of the documentation (\<open>commentHandle\<close> is handed the string containing the
  comment, and the table notes for state 24: minus in commentary, add it) and fails on
  the code. The claim: the handler receives the body of a comment without \<open>--\<close> as it
  is, a lone \<open>-\<close> being appended together with the character after it.
  \<open>do_comment_minus_mark\<close> appends the \<open>-\<close> and not the character that told it the \<open>-\<close>
  was alone: the comment \<open><!--a-b-->\<close> is delivered as \<open>a-\<close>. A body without any \<open>-\<close>,
  as in \<open><!-- hi -->\<close>, is delivered as it is.
\<close>

theorem C7_character_after_minus_dropped:
  "thrown (parse quiet (Parser_on (stream_of ''<?x?><!--a-b-->''))) = None
   \<and> delivered (parse quiet (Parser_on (stream_of ''<?x?><!--a-b-->''))) =
       [documentStart, definitionHandle ''x'' Map.empty, commentHandle ''a-'', documentEnd]
   \<and> delivered (parse quiet (Parser_on (stream_of ''<?x?><!-- hi -->''))) =
       [documentStart, definitionHandle ''x'' Map.empty, commentHandle '' hi '', documentEnd]"
  by (simp add: run)

subsection \<open>C8: reset\<close>

text \<open>
  C8 holds of the documentation of \<open>reset()\<close> (the state of the parser is reset, a new
  document can be parsed) and fails on the code for one buffer. \<open>do_all_clear\<close> does not
  touch \<open>m_comment\<close>: after a document that ends inside the comment \<open><!--ab\<close>, \<open>reset()\<close>
  leaves \<open>ab\<close> in the buffer, and the first comment of the next document, \<open><!--cd-->\<close>, is
  delivered as \<open>abcd\<close>. The last conjuncts say what \<open>reset()\<close> does to any object: the
  comment buffer is kept; the state, the four flags, the other four buffers, the
  attribute collection and the bound stream are as the claim says.
\<close>

theorem C8_reset_keeps_comment:
  "m_comment (reset (parser_of (parse quiet (Parser_on (stream_of ''<?x?><!--ab''))))) = ''ab''
   \<and> delivered
         (parse quiet
            (bind (stream_of ''<?x?><!--cd-->'')
               (reset (parser_of (parse quiet (Parser_on (stream_of ''<?x?><!--ab''))))))) =
       [documentStart, definitionHandle ''x'' Map.empty, documentEnd,
        documentStart, definitionHandle ''x'' Map.empty, commentHandle ''abcd'', documentEnd]
   \<and> m_comment (reset p) = m_comment p
   \<and> m_state (reset p) = 0
   \<and> m_is_style (reset p) = False \<and> m_is_closing_tag (reset p) = False
   \<and> m_is_tag_no_body (reset p) = False \<and> m_stop_flag (reset p) = False
   \<and> m_tag (reset p) = [] \<and> m_text (reset p) = []
   \<and> m_attribute_first (reset p) = [] \<and> m_attribute_second (reset p) = []
   \<and> m_attributes (reset p) = Map.empty
   \<and> m_is (reset p) = m_is p"
  by (simp add: run)

subsection \<open>C9: stop before parse\<close>

text \<open>
  C9: when \<open>stop()\<close> is called while no \<open>parse()\<close> is running, the next \<open>parse()\<close> of a
  bound parser sends no documentStart, clears the flag and scans: its outcome is the
  outcome of the loop started on the object as it was, with the flag down, followed by
  the end of \<open>parse()\<close>; and documentStart is not among the events it adds. This holds
  of any object, a fresh one included.
\<close>

theorem C9_stop_before_parse:
  assumes "m_is p = Some s"
  shows "parse sink (stop p) =
           (case parse_loop sink (p\<lparr>m_stop_flag := False\<rparr>) of
              Inl e \<Rightarrow> Inl e
            | Inr q \<Rightarrow>
                if \<not> m_stop_flag q \<and> \<not> stream_eof q then Inl (KISAX_ERROR_BAD_STREAM, q)
                else Inr (emit sink documentEnd q))
     \<and> (\<exists>evs. delivered (parse sink (stop p)) = events p @ evs \<and> documentStart \<notin> set evs)"
proof
  show eq: "parse sink (stop p) =
           (case parse_loop sink (p\<lparr>m_stop_flag := False\<rparr>) of
              Inl e \<Rightarrow> Inl e
            | Inr q \<Rightarrow>
                if \<not> m_stop_flag q \<and> \<not> stream_eof q then Inl (KISAX_ERROR_BAD_STREAM, q)
                else Inr (emit sink documentEnd q))"
    using assms by (simp add: parse_def stop_def Let_def)
  obtain evs where l: "events (parser_of (parse_loop sink (p\<lparr>m_stop_flag := False\<rparr>))) =
      events (p\<lparr>m_stop_flag := False\<rparr>) @ evs" "documentStart \<notin> set evs"
    using parse_loop_appends [of sink "p\<lparr>m_stop_flag := False\<rparr>"] by blast
  show "\<exists>evs. delivered (parse sink (stop p)) = events p @ evs \<and> documentStart \<notin> set evs"
  proof (cases "parse_loop sink (p\<lparr>m_stop_flag := False\<rparr>)")
    case (Inl e)
    with l eq show ?thesis
      by (cases e) (auto simp: delivered_def parser_of_def)
  next
    case (Inr q)
    with l have "events q = events p @ evs" by (simp add: parser_of_def)
    then have "events (emit sink documentEnd q) = events p @ (evs @ [documentEnd])"
      by (simp add: emit_def)
    with Inr eq l(2) \<open>events q = events p @ evs\<close> show ?thesis
      by (cases "\<not> m_stop_flag q \<and> \<not> stream_eof q")
         (auto simp: delivered_def parser_of_def intro: exI [of _ "evs @ [documentEnd]"])
  qed
qed

text \<open>The witness: the first \<open>parse()\<close> of a fresh parser, after \<open>stop()\<close>.\<close>

theorem C9_witness:
  "(\<exists>evs. delivered (parse quiet (stop (Parser_on (stream_of ''<?x?><a>'')))) =
            events (Parser_on (stream_of ''<?x?><a>'')) @ evs \<and> documentStart \<notin> set evs)
   \<and> delivered (parse quiet (stop (Parser_on (stream_of ''<?x?><a>'')))) =
       [definitionHandle ''x'' Map.empty, elementStart ''a'' Map.empty, documentEnd]
   \<and> thrown (parse quiet (stop (Parser_on (stream_of ''<?x?><a>'')))) = None"
proof -
  have h: "m_is (Parser_on (stream_of ''<?x?><a>'')) = Some (stream_of ''<?x?><a>'')"
    by (simp add: run)
  from C9_stop_before_parse [OF h]
  have "\<exists>evs. delivered (parse quiet (stop (Parser_on (stream_of ''<?x?><a>'')))) =
            events (Parser_on (stream_of ''<?x?><a>'')) @ evs \<and> documentStart \<notin> set evs"
    by (rule conjunct2)
  moreover have "delivered (parse quiet (stop (Parser_on (stream_of ''<?x?><a>'')))) =
       [definitionHandle ''x'' Map.empty, elementStart ''a'' Map.empty, documentEnd]
   \<and> thrown (parse quiet (stop (Parser_on (stream_of ''<?x?><a>'')))) = None"
    by (simp add: run)
  ultimately show ?thesis by blast
qed

subsection \<open>C10: no empty text event\<close>

text \<open>
  C10: \<open>textHandle\<close> is never called with an empty string. In every state the object can
  be in, no text event of the log is empty, and no \<open>parse()\<close> called in such a state
  (with a row in the table) delivers one.
\<close>

theorem C10_text_never_empty:
  assumes "reachable sink p"
  shows "textHandle [] \<notin> set (events p)
     \<and> (0 \<le> m_state p \<longrightarrow> textHandle [] \<notin> set (delivered (parse sink p)))"
proof
  from assms have "text_inv p" by (rule text_inv_reachable)
  then show "textHandle [] \<notin> set (events p)" by (simp add: text_inv_def)
next
  show "0 \<le> m_state p \<longrightarrow> textHandle [] \<notin> set (delivered (parse sink p))"
  proof
    assume "0 \<le> m_state p"
    with assms have "reachable sink (parser_of (parse sink p))" by (rule reachable_parse)
    then have "text_inv (parser_of (parse sink p))" by (rule text_inv_reachable)
    then show "textHandle [] \<notin> set (delivered (parse sink p))"
      by (simp add: text_inv_def delivered_def)
  qed
qed

text \<open>The witness: a document with text in it.\<close>

theorem C10_witness:
  "textHandle [] \<notin> set (delivered (parse quiet (Parser_on (stream_of ''<?x?>ab<c>''))))
   \<and> delivered (parse quiet (Parser_on (stream_of ''<?x?>ab<c>''))) =
       [documentStart, definitionHandle ''x'' Map.empty, textHandle ''ab'',
        elementStart ''c'' Map.empty, documentEnd]"
proof
  have r: "reachable quiet (Parser_on (stream_of ''<?x?>ab<c>''))"
    unfolding Parser_on_def by (rule reachable.constructed)
  have s: "0 \<le> m_state (Parser_on (stream_of ''<?x?>ab<c>''))"
    by (simp add: run)
  from C10_text_never_empty [OF r] s
  show "textHandle [] \<notin> set (delivered (parse quiet (Parser_on (stream_of ''<?x?>ab<c>''))))"
    by blast
next
  show "delivered (parse quiet (Parser_on (stream_of ''<?x?>ab<c>''))) =
       [documentStart, definitionHandle ''x'' Map.empty, textHandle ''ab'',
        elementStart ''c'' Map.empty, documentEnd]"
    by (simp add: run)
qed

end
